theory Spec2Isabelle
  imports Main "HOL-Library.Word"
begin

unbundle bit_operations_syntax

section \<open>Data model\<close>

text \<open>
  The column buffer is an array of \<open>unsigned __int8\<close>, the match vector an array of
  \<open>unsigned __int64\<close>. Both are caller-owned raw buffers: a buffer is modelled by the list of
  its allocated elements, and an access outside it (undefined behaviour in C++) is the result
  \<open>None\<close>. The \<open>int\<close> row count and loop index are modelled as \<open>int\<close>, negative values
  included: the index never exceeds a non-negative row count, so no 32-bit operation of the
  scans wraps; \<open>length & 63\<close> and \<open>i >> 6\<close> are the two's complement operations on \<open>int\<close>.
  Where a 32-bit operation can wrap (the capacity guard of the managed entry point, the
  cast of the counter) the model uses machine words.
\<close>

type_synonym u8 = "8 word"
type_synonym u32 = "32 word"
type_synonym u64 = "64 word"

text \<open>A 256-bit register, seen as its 32 byte lanes (lane 0 first).\<close>
type_synonym m256i = "u8 list"

datatype CompareOperatorN =
  Equals | NotEquals | LessThan | LessThanOrEqual | GreaterThan | GreaterThanOrEqual

datatype BooleanOperatorN = And | AndNot | Or

datatype SigningN = Unsigned | Signed

section \<open>The AVX2 and SSE4.2 primitives used by the kernel\<close>

text \<open>
  The intrinsics, as the comment at the head of the source file describes them:
  \<open>set1\<close> broadcasts a byte, \<open>sub\<close> subtracts lane by lane (wrapping), \<open>cmpgt\<close> compares
  the lanes as signed bytes and yields \<open>0xFF\<close> or \<open>0x00\<close>, \<open>cmpeq\<close> likewise for equality,
  \<open>movemask\<close> gathers the top bit of every lane, \<open>loadu\<close> reads 32 consecutive bytes.
\<close>

definition mm256_set1_epi8 :: "u8 \<Rightarrow> m256i" where
  "mm256_set1_epi8 a = replicate 32 a"

definition mm256_sub_epi8 :: "m256i \<Rightarrow> m256i \<Rightarrow> m256i" where
  "mm256_sub_epi8 a b = map (\<lambda>(x, y). x - y) (zip a b)"

definition mm256_cmpgt_epi8 :: "m256i \<Rightarrow> m256i \<Rightarrow> m256i" where
  "mm256_cmpgt_epi8 a b = map (\<lambda>(x, y). if sint y < sint x then 0xFF else 0x00) (zip a b)"

definition mm256_cmpeq_epi8 :: "m256i \<Rightarrow> m256i \<Rightarrow> m256i" where
  "mm256_cmpeq_epi8 a b = map (\<lambda>(x, y). if x = y then 0xFF else 0x00) (zip a b)"

definition mm256_movemask_epi8 :: "m256i \<Rightarrow> u32" where
  "mm256_movemask_epi8 a = horner_sum of_bool 2 (map (\<lambda>x. bit x 7) a)"

definition mm256_loadu_si256 :: "u8 list \<Rightarrow> int \<Rightarrow> m256i option" where
  "mm256_loadu_si256 mem i =
     (if 0 \<le> i \<and> nat i + 32 \<le> length mem then Some (take 32 (drop (nat i) mem)) else None)"

definition mm_popcnt_u64 :: "u64 \<Rightarrow> u64" where
  "mm_popcnt_u64 w = of_nat (length (filter (bit w) [0..<64]))"

section \<open>Raw buffer accesses\<close>

definition load_u8 :: "u8 list \<Rightarrow> int \<Rightarrow> u8 option" where
  "load_u8 mem i = (if 0 \<le> i \<and> nat i < length mem then Some (mem ! nat i) else None)"

definition load_u64 :: "u64 list \<Rightarrow> int \<Rightarrow> u64 option" where
  "load_u64 mem i = (if 0 \<le> i \<and> nat i < length mem then Some (mem ! nat i) else None)"

text \<open>The compound assignments \<open>matchVector[k] &= r\<close>, \<open>|= r\<close> and \<open>&= ~r\<close>.\<close>

definition combine :: "BooleanOperatorN \<Rightarrow> u64 \<Rightarrow> u64 \<Rightarrow> u64" where
  "combine bOp old result =
     (case bOp of
        And \<Rightarrow> old AND result
      | Or \<Rightarrow> old OR result
      | AndNot \<Rightarrow> old AND NOT result)"

definition update_u64 :: "u64 list \<Rightarrow> int \<Rightarrow> (u64 \<Rightarrow> u64) \<Rightarrow> u64 list option" where
  "update_u64 mem k f =
     (if 0 \<le> k \<and> nat k < length mem then Some (mem[nat k := f (mem ! nat k)]) else None)"

section \<open>Operator.h: the generic scan \<open>Where<cOp, bOp, sign>\<close>\<close>

text \<open>The body of the 64-byte block loop up to the computed 64-bit result word.\<close>

definition block_result ::
  "CompareOperatorN \<Rightarrow> SigningN \<Rightarrow> u8 list \<Rightarrow> m256i \<Rightarrow> int \<Rightarrow> u64 option" where
  "block_result cOp sign setp blockOfValue i =
     (case mm256_loadu_si256 setp i of
        None \<Rightarrow> None
      | Some block1 \<Rightarrow>
     (case mm256_loadu_si256 setp (i + 32) of
        None \<Rightarrow> None
      | Some block2 \<Rightarrow>
         (let unsignedToSigned = mm256_set1_epi8 (- 128);
              block1' = (if sign = Unsigned then mm256_sub_epi8 block1 unsignedToSigned else block1);
              block2' = (if sign = Unsigned then mm256_sub_epi8 block2 unsignedToSigned else block2);
              matchMask1 =
                (case cOp of
                   GreaterThan \<Rightarrow> mm256_cmpgt_epi8 block1' blockOfValue
                 | LessThanOrEqual \<Rightarrow> mm256_cmpgt_epi8 block1' blockOfValue
                 | LessThan \<Rightarrow> mm256_cmpgt_epi8 blockOfValue block1'
                 | GreaterThanOrEqual \<Rightarrow> mm256_cmpgt_epi8 blockOfValue block1'
                 | Equals \<Rightarrow> mm256_cmpeq_epi8 block1' blockOfValue
                 | NotEquals \<Rightarrow> mm256_cmpeq_epi8 block1' blockOfValue);
              matchMask2 =
                (case cOp of
                   GreaterThan \<Rightarrow> mm256_cmpgt_epi8 block2' blockOfValue
                 | LessThanOrEqual \<Rightarrow> mm256_cmpgt_epi8 block2' blockOfValue
                 | LessThan \<Rightarrow> mm256_cmpgt_epi8 blockOfValue block2'
                 | GreaterThanOrEqual \<Rightarrow> mm256_cmpgt_epi8 blockOfValue block2'
                 | Equals \<Rightarrow> mm256_cmpeq_epi8 block2' blockOfValue
                 | NotEquals \<Rightarrow> mm256_cmpeq_epi8 block2' blockOfValue);
              matchBits1 = mm256_movemask_epi8 matchMask1;
              matchBits2 = mm256_movemask_epi8 matchMask2;
              result = push_bit 32 (ucast matchBits2 :: u64) OR ucast matchBits1
          in Some (if cOp = LessThanOrEqual \<or> cOp = GreaterThanOrEqual \<or> cOp = NotEquals
                   then NOT result else result))))"

text \<open>The block loop \<open>for (; i < blockLength; i += 64)\<close>; it returns the final index too.\<close>

function Where_blocks ::
  "CompareOperatorN \<Rightarrow> BooleanOperatorN \<Rightarrow> SigningN \<Rightarrow> u8 list \<Rightarrow> m256i \<Rightarrow> int \<Rightarrow> int
     \<Rightarrow> u64 list \<Rightarrow> (int \<times> u64 list) option" where
  "Where_blocks cOp bOp sign setp blockOfValue blockLength i matchVector =
     (if i < blockLength then
        (case block_result cOp sign setp blockOfValue i of
           None \<Rightarrow> None
         | Some result \<Rightarrow>
        (case update_u64 matchVector (drop_bit 6 i) (\<lambda>old. combine bOp old result) of
           None \<Rightarrow> None
         | Some matchVector' \<Rightarrow>
             Where_blocks cOp bOp sign setp blockOfValue blockLength (i + 64) matchVector'))
      else Some (i, matchVector))"
  by pat_completeness auto
termination
  by (relation "measure (\<lambda>(cOp, bOp, sign, setp, blockOfValue, blockLength, i, matchVector).
        nat (blockLength - i))") auto

declare Where_blocks.simps [simp del]

text \<open>The comparison of one tail byte: plain \<open>unsigned __int8\<close> operands.\<close>

definition tail_match :: "CompareOperatorN \<Rightarrow> u8 \<Rightarrow> u8 \<Rightarrow> bool" where
  "tail_match cOp b v =
     (case cOp of
        GreaterThan \<Rightarrow> v < b
      | GreaterThanOrEqual \<Rightarrow> v \<le> b
      | LessThan \<Rightarrow> b < v
      | LessThanOrEqual \<Rightarrow> b \<le> v
      | Equals \<Rightarrow> b = v
      | NotEquals \<Rightarrow> b \<noteq> v)"

text \<open>The tail loop \<open>for (; i < length; ++i)\<close>, accumulating \<open>result\<close>.\<close>

function Where_tail ::
  "CompareOperatorN \<Rightarrow> u8 list \<Rightarrow> int \<Rightarrow> u8 \<Rightarrow> int \<Rightarrow> u64 \<Rightarrow> (int \<times> u64) option" where
  "Where_tail cOp setp len v i result =
     (if i < len then
        (case load_u8 setp i of
           None \<Rightarrow> None
         | Some b \<Rightarrow>
             Where_tail cOp setp len v (i + 1)
               (if tail_match cOp b v then result OR push_bit (nat (i AND 63)) 1 else result))
      else Some (i, result))"
  by pat_completeness auto
termination
  by (relation "measure (\<lambda>(cOp, setp, len, v, i, result). nat (len - i))") auto

declare Where_tail.simps [simp del]

definition Where ::
  "CompareOperatorN \<Rightarrow> BooleanOperatorN \<Rightarrow> SigningN \<Rightarrow> u8 list \<Rightarrow> int \<Rightarrow> u8 \<Rightarrow> u64 list
     \<Rightarrow> u64 list option" where
  "Where cOp bOp sign setp len v matchVector =
     (let unsignedToSigned = mm256_set1_epi8 (- 128);
          blockOfValue0 = mm256_set1_epi8 v;
          blockOfValue =
            (if sign = Unsigned then mm256_sub_epi8 blockOfValue0 unsignedToSigned
             else blockOfValue0);
          blockLength = len - (len AND 63)
      in case Where_blocks cOp bOp sign setp blockOfValue blockLength 0 matchVector of
           None \<Rightarrow> None
         | Some (i, matchVector1) \<Rightarrow>
             if 0 < (len AND 63) then
               (case Where_tail cOp setp len v i 0 of
                  None \<Rightarrow> None
                | Some (i', result) \<Rightarrow>
                    update_u64 matchVector1 (drop_bit 6 i') (\<lambda>old. combine bOp old result))
             else Some matchVector1)"

text \<open>The exported wrappers; \<open>positive\<close> and \<open>and\<close> are parameters of the signature.\<close>

definition WhereGreaterThan ::
  "bool \<Rightarrow> bool \<Rightarrow> u8 list \<Rightarrow> int \<Rightarrow> u8 \<Rightarrow> u64 list \<Rightarrow> u64 list option" where
  "WhereGreaterThan positive and_flag setp len v matchVector =
     Where GreaterThan And Unsigned setp len v matchVector"

definition WhereLessThan ::
  "bool \<Rightarrow> bool \<Rightarrow> u8 list \<Rightarrow> int \<Rightarrow> u8 \<Rightarrow> u64 list \<Rightarrow> u64 list option" where
  "WhereLessThan positive and_flag setp len v matchVector =
     Where LessThan And Unsigned setp len v matchVector"

definition WhereEquals ::
  "bool \<Rightarrow> bool \<Rightarrow> u8 list \<Rightarrow> int \<Rightarrow> u8 \<Rightarrow> u64 list \<Rightarrow> u64 list option" where
  "WhereEquals positive and_flag setp len v matchVector =
     Where Equals And Unsigned setp len v matchVector"

section \<open>IndexSetN.cpp\<close>

text \<open>The block loop of \<open>AndWhereGreaterThanInternal\<close>.\<close>

function AndWhereGreaterThan_blocks ::
  "u8 list \<Rightarrow> m256i \<Rightarrow> m256i \<Rightarrow> int \<Rightarrow> int \<Rightarrow> u64 list \<Rightarrow> (int \<times> u64 list) option" where
  "AndWhereGreaterThan_blocks setp signedToUnsigned blockOfValue blockLength i matchVector =
     (if i < blockLength then
        (case mm256_loadu_si256 setp i of
           None \<Rightarrow> None
         | Some block1 \<Rightarrow>
        (let block1' = mm256_sub_epi8 block1 signedToUnsigned;
             matchMask1 = mm256_cmpgt_epi8 block1' blockOfValue;
             matchBits1 = mm256_movemask_epi8 matchMask1
         in case mm256_loadu_si256 setp (i + 32) of
              None \<Rightarrow> None
            | Some block2 \<Rightarrow>
           (let block2' = mm256_sub_epi8 block2 signedToUnsigned;
                matchMask2 = mm256_cmpgt_epi8 block2' blockOfValue;
                matchBits2 = mm256_movemask_epi8 matchMask2;
                result0 = (ucast matchBits2 :: u64);
                result1 = push_bit 32 result0;
                result = result1 OR ucast matchBits1
            in case update_u64 matchVector (drop_bit 6 i) (\<lambda>old. old AND result) of
                 None \<Rightarrow> None
               | Some matchVector' \<Rightarrow>
                   AndWhereGreaterThan_blocks setp signedToUnsigned blockOfValue blockLength
                     (i + 64) matchVector')))
      else Some (i, matchVector))"
  by pat_completeness auto
termination
  by (relation "measure (\<lambda>(setp, signedToUnsigned, blockOfValue, blockLength, i, matchVector).
        nat (blockLength - i))") auto

declare AndWhereGreaterThan_blocks.simps [simp del]

text \<open>Its tail loop, accumulating \<open>last\<close> (here \<open>lastw\<close>).\<close>

function AndWhereGreaterThan_tail ::
  "u8 list \<Rightarrow> int \<Rightarrow> u8 \<Rightarrow> int \<Rightarrow> u64 \<Rightarrow> (int \<times> u64) option" where
  "AndWhereGreaterThan_tail setp len v i lastw =
     (if i < len then
        (case load_u8 setp i of
           None \<Rightarrow> None
         | Some b \<Rightarrow>
             AndWhereGreaterThan_tail setp len v (i + 1)
               (if v < b then lastw OR push_bit (nat (i AND 63)) 1 else lastw))
      else Some (i, lastw))"
  by pat_completeness auto
termination
  by (relation "measure (\<lambda>(setp, len, v, i, lastw). nat (len - i))") auto

declare AndWhereGreaterThan_tail.simps [simp del]

definition AndWhereGreaterThanInternal ::
  "u8 list \<Rightarrow> int \<Rightarrow> u8 \<Rightarrow> u64 list \<Rightarrow> u64 list option" where
  "AndWhereGreaterThanInternal setp len v matchVector =
     (let signedToUnsigned = mm256_set1_epi8 (- 128);
          blockOfValue = mm256_sub_epi8 (mm256_set1_epi8 v) signedToUnsigned;
          blockLength = len - (len AND 63)
      in case AndWhereGreaterThan_blocks setp signedToUnsigned blockOfValue blockLength 0
                matchVector of
           None \<Rightarrow> None
         | Some (i, matchVector1) \<Rightarrow>
             if 0 < (len AND 63) then
               (case AndWhereGreaterThan_tail setp len v i 0 of
                  None \<Rightarrow> None
                | Some (i', lastw) \<Rightarrow>
                    update_u64 matchVector1 (drop_bit 6 len) (\<lambda>old. old AND lastw))
             else Some matchVector1)"

text \<open>
  \<open>CountInternal\<close>: the counter is an \<open>__int64\<close>, the value returned is its cast to
  \<open>int\<close> (the low 32 bits, read as signed). The function only reads the match vector; the
  buffer after the call is returned next to the count.
\<close>

function CountInternal_loop :: "u64 list \<Rightarrow> int \<Rightarrow> int \<Rightarrow> u64 \<Rightarrow> u64 option" where
  "CountInternal_loop matchVector len i count =
     (if i < len then
        (case load_u64 matchVector i of
           None \<Rightarrow> None
         | Some w \<Rightarrow> CountInternal_loop matchVector len (i + 1) (count + mm_popcnt_u64 w))
      else Some count)"
  by pat_completeness auto
termination
  by (relation "measure (\<lambda>(matchVector, len, i, count). nat (len - i))") auto

declare CountInternal_loop.simps [simp del]

definition CountInternal :: "u64 list \<Rightarrow> int \<Rightarrow> (int \<times> u64 list) option" where
  "CountInternal matchVector len =
     (case CountInternal_loop matchVector len 0 0 of
        None \<Rightarrow> None
      | Some count \<Rightarrow> Some (sint (ucast count :: u32), matchVector))"

text \<open>
  The managed entry point. \<open>matchVector->Length * 64\<close> is a 32-bit \<open>int\<close> product, and
  taking the address of element 0 of a managed array is bounds-checked: on an empty array
  it raises \<open>IndexOutOfRangeException\<close>.
\<close>

datatype error = IndexOutOfRangeException | UndefinedBehaviour

definition AndWhereGreaterThan :: "u8 list \<Rightarrow> u8 \<Rightarrow> u64 list \<Rightarrow> error + u64 list" where
  "AndWhereGreaterThan setp v matchVector =
     (if sint ((word_of_nat (length matchVector) :: u32) * 64) < int (length setp)
      then Inr matchVector
      else if setp = [] then Inl IndexOutOfRangeException
      else if matchVector = [] then Inl IndexOutOfRangeException
      else (case AndWhereGreaterThanInternal setp (int (length setp)) v matchVector of
              None \<Rightarrow> Inl UndefinedBehaviour
            | Some matchVector' \<Rightarrow> Inr matchVector'))"

section \<open>Reference semantics of a comparison\<close>

text \<open>
  The naive scalar comparison of the specification: the two bytes are read under the chosen
  signedness and compared as integers.
\<close>

definition naive_compare :: "CompareOperatorN \<Rightarrow> SigningN \<Rightarrow> u8 \<Rightarrow> u8 \<Rightarrow> bool" where
  "naive_compare cOp sign a b =
     (let x = (case sign of Unsigned \<Rightarrow> uint a | Signed \<Rightarrow> sint a);
          y = (case sign of Unsigned \<Rightarrow> uint b | Signed \<Rightarrow> sint b)
      in case cOp of
           Equals \<Rightarrow> x = y
         | NotEquals \<Rightarrow> x \<noteq> y
         | LessThan \<Rightarrow> x < y
         | LessThanOrEqual \<Rightarrow> x \<le> y
         | GreaterThan \<Rightarrow> x > y
         | GreaterThanOrEqual \<Rightarrow> x \<ge> y)"

text \<open>The number of one-bits of a word.\<close>

definition set_bit_count :: "u64 \<Rightarrow> nat" where
  "set_bit_count w = card {k. bit w k}"

section \<open>Auxiliary notions for the proofs\<close>

text \<open>
  Names for the intermediate values of \<open>Where\<close>: the broadcast scalar as the block loop
  sees it, a data block after the optional bias, the lane mask chosen by the operator, the
  operators whose result word is inverted, the result word of chunk \<open>k\<close>, and the result word
  of the tail loop.
\<close>

definition bov :: "SigningN \<Rightarrow> u8 \<Rightarrow> m256i" where
  "bov sign v =
     (if sign = Unsigned then mm256_sub_epi8 (mm256_set1_epi8 v) (mm256_set1_epi8 (- 128))
      else mm256_set1_epi8 v)"

definition biased :: "SigningN \<Rightarrow> m256i \<Rightarrow> m256i" where
  "biased sign b = (if sign = Unsigned then mm256_sub_epi8 b (mm256_set1_epi8 (- 128)) else b)"

definition mask_of :: "CompareOperatorN \<Rightarrow> m256i \<Rightarrow> m256i \<Rightarrow> m256i" where
  "mask_of cOp b w = (case cOp of
                   GreaterThan \<Rightarrow> mm256_cmpgt_epi8 b w
                 | LessThanOrEqual \<Rightarrow> mm256_cmpgt_epi8 b w
                 | LessThan \<Rightarrow> mm256_cmpgt_epi8 w b
                 | GreaterThanOrEqual \<Rightarrow> mm256_cmpgt_epi8 w b
                 | Equals \<Rightarrow> mm256_cmpeq_epi8 b w
                 | NotEquals \<Rightarrow> mm256_cmpeq_epi8 b w)"

definition inverted :: "CompareOperatorN \<Rightarrow> bool" where
  "inverted cOp \<longleftrightarrow> cOp = LessThanOrEqual \<or> cOp = GreaterThanOrEqual \<or> cOp = NotEquals"

definition chunk_result ::
  "CompareOperatorN \<Rightarrow> SigningN \<Rightarrow> u8 list \<Rightarrow> u8 \<Rightarrow> nat \<Rightarrow> u64 option" where
  "chunk_result cOp sign setp v k = block_result cOp sign setp (bov sign v) (64 * int k)"

definition tail_result :: "CompareOperatorN \<Rightarrow> u8 list \<Rightarrow> int \<Rightarrow> u8 \<Rightarrow> u64 option" where
  "tail_result cOp setp len v =
     map_option snd (Where_tail cOp setp len v (len - (len AND 63)) 0)"

section \<open>Lane arithmetic\<close>

lemma bit_128_int: "bit (128::int) n \<longleftrightarrow> n = 7"
  using bit_exp_iff [where ?'a = int, of 7 n] by auto

lemma add_xor_top: "(a::8 word) + 128 = a XOR 128"
proof (cases "bit a 7")
  case False
  have "a + 128 = a OR 128"
    by (rule disjunctive_add) (use False in \<open>auto simp add: bit_128_int\<close>)
  also have "\<dots> = a XOR 128"
    by (rule bit_word_eqI) (use False in \<open>auto simp add: bit_or_iff bit_xor_iff bit_128_int\<close>)
  finally show ?thesis .
next
  case True
  define b where "b = take_bit 7 a"
  have nb: "\<not> bit b n \<or> \<not> bit (128 :: 8 word) n" for n
    by (auto simp add: b_def bit_take_bit_iff bit_128_int)
  have "a = b OR 128"
    by (rule bit_word_eqI) (use True in \<open>auto simp add: b_def bit_or_iff bit_take_bit_iff bit_128_int\<close>)
  also have "\<dots> = b + 128"
    by (rule disjunctive_add [symmetric]) (rule nb)
  finally have a: "a = b + 128" .
  have "a + 128 = b" by (simp add: a)
  also have "b = a XOR 128"
    by (rule bit_word_eqI) (use True in \<open>auto simp add: b_def bit_xor_iff bit_take_bit_iff bit_128_int\<close>)
  finally show ?thesis .
qed

lemma sub_bias_xor: "(a::8 word) - 128 = a XOR 128"
proof -
  have "a - 128 = a + 128" by simp
  then show ?thesis by (simp only: add_xor_top)
qed

lemma sint_bias: "sint (a - 128 :: 8 word) = uint a - 128"
proof -
  have "uint (a - 128) = (uint a - 128) mod 256"
    by (simp add: uint_word_arith_bintrs take_bit_eq_mod)
  moreover have "0 \<le> uint a" "uint a < 256" using uint_lt2p[of a] by simp_all
  ultimately show ?thesis
    by (simp add: sint_uint signed_take_bit_eq_take_bit_shift take_bit_eq_mod mod_simps)
qed

lemma cmpgt_nth:
  "j < length a \<Longrightarrow> j < length b \<Longrightarrow>
   mm256_cmpgt_epi8 a b ! j = (if sint (b ! j) < sint (a ! j) then 0xFF else 0)"
  by (simp add: mm256_cmpgt_epi8_def)

lemma movemask_bit:
  "bit (mm256_movemask_epi8 a) n \<longleftrightarrow> n < 32 \<and> n < length a \<and> bit (a ! n) 7"
  by (auto simp add: mm256_movemask_epi8_def bit_horner_sum_bit_word_iff)

lemma pack_bit:
  "bit (push_bit 32 (ucast (hi::32 word) :: 64 word) OR ucast (lo :: 32 word)) n \<longleftrightarrow>
     (if n < 32 then bit lo n else n < 64 \<and> bit hi (n - 32))"
  by (auto simp add: bit_or_iff bit_push_bit_iff bit_ucast_iff dest: bit_imp_le_length)

lemma bov_nth: "j < 32 \<Longrightarrow> bov sign v ! j = (if sign = Unsigned then v - 128 else v)"
  by (simp add: bov_def mm256_sub_epi8_def mm256_set1_epi8_def)

lemma bov_length: "length (bov sign v) = 32"
  by (simp add: bov_def mm256_sub_epi8_def mm256_set1_epi8_def)

lemma biased_nth:
  "j < 32 \<Longrightarrow> length b = 32 \<Longrightarrow>
   biased sign b ! j = (if sign = Unsigned then b ! j - 128 else b ! j)"
  by (simp add: biased_def mm256_sub_epi8_def mm256_set1_epi8_def)

lemma biased_length: "length b = 32 \<Longrightarrow> length (biased sign b) = 32"
  by (simp add: biased_def mm256_sub_epi8_def mm256_set1_epi8_def)

lemma mask_of_length: "length b = 32 \<Longrightarrow> length w = 32 \<Longrightarrow> length (mask_of cOp b w) = 32"
  by (cases cOp) (simp_all add: mask_of_def mm256_cmpgt_epi8_def mm256_cmpeq_epi8_def)

lemma uint_eq_iff8: "uint (a::8 word) = uint b \<longleftrightarrow> a = b"
  by (simp add: word_uint_eq_iff)

lemma sint_eq_iff8: "sint (a::8 word) = sint b \<longleftrightarrow> a = b"
  by (auto intro: signed_word_eqI)

lemma mask_lane:
  assumes "j < 32" "length b = 32"
  shows "bit (mask_of cOp (biased sign b) (bov sign v) ! j) 7 \<longleftrightarrow>
         (if inverted cOp then \<not> naive_compare cOp sign (b ! j) v else naive_compare cOp sign (b ! j) v)"
  using assms
  by (cases cOp; cases sign)
     (auto simp add: mask_of_def inverted_def naive_compare_def mm256_cmpgt_epi8_def
        mm256_cmpeq_epi8_def bov_nth bov_length biased_nth biased_length sint_bias
        word_less_def word_le_def uint_eq_iff8 sint_eq_iff8)

lemma block_result_eq:
  "block_result cOp sign setp w i =
     (case mm256_loadu_si256 setp i of None \<Rightarrow> None | Some b1 \<Rightarrow>
      (case mm256_loadu_si256 setp (i + 32) of None \<Rightarrow> None | Some b2 \<Rightarrow>
        Some (let r = push_bit 32 (ucast (mm256_movemask_epi8 (mask_of cOp (biased sign b2) w)) :: u64)
                       OR ucast (mm256_movemask_epi8 (mask_of cOp (biased sign b1) w))
              in if inverted cOp then NOT r else r)))"
  by (simp add: block_result_def mask_of_def biased_def inverted_def Let_def split: option.splits)

lemma loadu_Some:
  "0 \<le> i \<Longrightarrow> nat i + 32 \<le> length setp \<Longrightarrow>
   \<exists>b. mm256_loadu_si256 setp i = Some b \<and> length b = 32 \<and> (\<forall>j<32. b ! j = setp ! (nat i + j))"
  by (simp add: mm256_loadu_si256_def)

lemma block_result_bits:
  assumes i: "0 \<le> i" and len: "nat i + 64 \<le> length setp"
  shows "\<exists>R. block_result cOp sign setp (bov sign v) i = Some R \<and>
           (\<forall>j<64. bit R j \<longleftrightarrow> naive_compare cOp sign (setp ! (nat i + j)) v)"
proof -
  from i len obtain b1 where b1: "mm256_loadu_si256 setp i = Some b1" "length b1 = 32"
      "\<forall>j<32. b1 ! j = setp ! (nat i + j)"
    using loadu_Some [of i setp] by auto
  have i32: "0 \<le> i + 32" "nat (i + 32) + 32 \<le> length setp" using i len by simp_all
  from i32 obtain b2 where b2: "mm256_loadu_si256 setp (i + 32) = Some b2" "length b2 = 32"
      "\<forall>j<32. b2 ! j = setp ! (nat (i + 32) + j)"
    using loadu_Some [of "i + 32" setp] by auto
  define r where "r = push_bit 32 (ucast (mm256_movemask_epi8 (mask_of cOp (biased sign b2) (bov sign v))) :: u64)
                       OR ucast (mm256_movemask_epi8 (mask_of cOp (biased sign b1) (bov sign v)))"
  have R: "block_result cOp sign setp (bov sign v) i = Some (if inverted cOp then NOT r else r)"
    by (simp add: block_result_eq b1 b2 r_def Let_def)
  have lo: "bit r j \<longleftrightarrow> (if inverted cOp then \<not> naive_compare cOp sign (setp ! (nat i + j)) v
              else naive_compare cOp sign (setp ! (nat i + j)) v)" if "j < 32" for j
    using that b1 by (simp add: r_def pack_bit movemask_bit mask_of_length biased_length bov_length mask_lane)
  have hi: "bit r j \<longleftrightarrow> (if inverted cOp then \<not> naive_compare cOp sign (setp ! (nat i + j)) v
              else naive_compare cOp sign (setp ! (nat i + j)) v)" if "32 \<le> j" "j < 64" for j
  proof -
    have "j - 32 < 32" using that by simp
    moreover have "nat (i + 32) + (j - 32) = nat i + j" using that i by simp
    ultimately show ?thesis
      using that b2 by (simp add: r_def pack_bit movemask_bit mask_of_length biased_length bov_length mask_lane)
  qed
  have "bit (if inverted cOp then NOT r else r) j \<longleftrightarrow> naive_compare cOp sign (setp ! (nat i + j)) v"
    if "j < 64" for j
  proof (cases "j < 32")
    case True
    then show ?thesis using lo [OF True] that by (simp add: bit_not_iff)
  next
    case False
    then show ?thesis using hi [of j] that by (simp add: bit_not_iff)
  qed
  with R show ?thesis by blast
qed

lemma and_63_int: "(x::int) AND 63 = x mod 64"
proof -
  have "x AND mask 6 = x mod 2 ^ 6" by (simp only: take_bit_eq_mask [symmetric] take_bit_eq_mod)
  then show ?thesis by (simp add: mask_eq_exp_minus_1)
qed

lemma drop_bit_6_int: "drop_bit 6 (x::int) = x div 64"
  by (simp add: drop_bit_eq_div)

lemma block_result_Some:
  assumes "0 \<le> i" and "nat i + 64 \<le> length setp"
  shows "\<exists>R. block_result cOp sign setp w i = Some R"
proof -
  have "0 \<le> i + 32" "nat (i + 32) + 32 \<le> length setp" "nat i + 32 \<le> length setp"
    using assms by simp_all
  then show ?thesis using assms(1)
    by (simp add: block_result_eq mm256_loadu_si256_def)
qed

lemma update_u64_Some:
  "0 \<le> k \<Longrightarrow> nat k < length mem \<Longrightarrow> update_u64 mem k f = Some (mem[nat k := f (mem ! nat k)])"
  by (simp add: update_u64_def)

section \<open>The two loops\<close>

lemma Where_blocks_spec:
  assumes "n \<le> m" "64 * m \<le> length setp" "m \<le> length mv"
  shows "\<exists>mv'. Where_blocks cOp bOp sign setp w (64 * int m) (64 * int n) mv = Some (64 * int m, mv') \<and>
           length mv' = length mv \<and>
           (\<forall>k<length mv. mv' ! k =
              (if n \<le> k \<and> k < m
               then combine bOp (mv ! k) (the (block_result cOp sign setp w (64 * int k)))
               else mv ! k))"
  using assms
proof (induction "m - n" arbitrary: n mv)
  case 0
  then have "n = m" by simp
  then have "Where_blocks cOp bOp sign setp w (64 * int m) (64 * int n) mv = Some (64 * int m, mv)"
    by (subst Where_blocks.simps) simp
  then show ?case using \<open>n = m\<close> by auto
next
  case (Suc d)
  then have nm: "n < m" by simp
  have "nat (64 * int n) + 64 \<le> length setp" using nm Suc.prems by simp
  then obtain R where R: "block_result cOp sign setp w (64 * int n) = Some R"
    using block_result_Some [of "64 * int n" setp cOp sign w] by auto
  define mv1 where "mv1 = mv[n := combine bOp (mv ! n) R]"
  have len1: "length mv1 = length mv" by (simp add: mv1_def)
  have U: "update_u64 mv (drop_bit 6 (64 * int n)) (\<lambda>old. combine bOp old R) = Some mv1"
    using nm Suc.prems by (simp add: drop_bit_6_int update_u64_Some mv1_def)
  have step: "Where_blocks cOp bOp sign setp w (64 * int m) (64 * int n) mv =
              Where_blocks cOp bOp sign setp w (64 * int m) (64 * int (Suc n)) mv1"
    by (subst Where_blocks.simps) (simp add: nm R U add.commute)
  have d: "d = m - Suc n" using Suc.hyps(2) by simp
  have "\<exists>mv'. Where_blocks cOp bOp sign setp w (64 * int m) (64 * int (Suc n)) mv1 = Some (64 * int m, mv') \<and>
           length mv' = length mv1 \<and>
           (\<forall>k<length mv1. mv' ! k =
              (if Suc n \<le> k \<and> k < m
               then combine bOp (mv1 ! k) (the (block_result cOp sign setp w (64 * int k)))
               else mv1 ! k))"
    by (rule Suc.hyps(1) [OF d]) (use nm Suc.prems len1 in simp_all)
  then obtain mv' where mv': "Where_blocks cOp bOp sign setp w (64 * int m) (64 * int (Suc n)) mv1 = Some (64 * int m, mv')"
       "length mv' = length mv"
       "\<And>k. k < length mv \<Longrightarrow> mv' ! k =
              (if Suc n \<le> k \<and> k < m
               then combine bOp (mv1 ! k) (the (block_result cOp sign setp w (64 * int k)))
               else mv1 ! k)"
    using len1 by auto
  have "mv' ! k = (if n \<le> k \<and> k < m
               then combine bOp (mv ! k) (the (block_result cOp sign setp w (64 * int k)))
               else mv ! k)" if k: "k < length mv" for k
  proof (cases "k = n")
    case True
    then show ?thesis using mv'(3) [OF k] k nm R by (simp add: mv1_def)
  next
    case False
    then show ?thesis using mv'(3) [OF k] k by (auto simp add: mv1_def)
  qed
  with step mv'(1,2) show ?case by auto
qed

lemma nat_and_63: "nat (int a AND 63) = a mod 64"
  by (simp add: and_63_int nat_mod_distrib)
lemma bit_or_single:
  "q < 64 \<Longrightarrow> bit ((r::u64) OR 2 ^ q) j \<longleftrightarrow> bit r j \<or> j = q"
  by (auto simp add: bit_or_iff bit_exp_iff)
lemma load_u8_Some: "a < length setp \<Longrightarrow> load_u8 setp (int a) = Some (setp ! a)"
  by (simp add: load_u8_def)
lemma ex_from_split:
  "(\<exists>t. a \<le> t \<and> Q t) \<longleftrightarrow> Q a \<or> (\<exists>t. Suc a \<le> t \<and> Q t)"
proof
  assume "\<exists>t. a \<le> t \<and> Q t"
  then obtain t where t: "a \<le> t" "Q t" by blast
  show "Q a \<or> (\<exists>t. Suc a \<le> t \<and> Q t)"
  proof (cases "t = a")
    case True
    with t show ?thesis by simp
  next
    case False
    with t have "Suc a \<le> t" by simp
    with t show ?thesis by blast
  qed
next
  assume "Q a \<or> (\<exists>t. Suc a \<le> t \<and> Q t)"
  then show "\<exists>t. a \<le> t \<and> Q t"
    using Suc_leD by blast
qed
lemma Where_tail_spec:
  assumes "a \<le> n" "n \<le> length setp"
  shows "\<exists>r'. Where_tail cOp setp (int n) v (int a) r = Some (int n, r') \<and>
           (\<forall>j. bit r' j \<longleftrightarrow> bit r j \<or> (\<exists>t. a \<le> t \<and> t < n \<and> t mod 64 = j \<and> tail_match cOp (setp ! t) v))"
  using assms
proof (induction "n - a" arbitrary: a r)
  case 0
  then have "a = n" by simp
  then have "Where_tail cOp setp (int n) v (int a) r = Some (int n, r)"
    by (subst Where_tail.simps) simp
  then show ?case using \<open>a = n\<close> by auto
next
  case (Suc d)
  then have an: "a < n" by simp
  define r1 where "r1 = (if tail_match cOp (setp ! a) v then r OR push_bit (a mod 64) 1 else r)"
  have step: "Where_tail cOp setp (int n) v (int a) r = Where_tail cOp setp (int n) v (int (Suc a)) r1"
    using an Suc.prems
    by (subst Where_tail.simps) (simp add: load_u8_Some nat_and_63 r1_def add.commute)
  have d: "d = n - Suc a" using Suc.hyps(2) by simp
  have "\<exists>r'. Where_tail cOp setp (int n) v (int (Suc a)) r1 = Some (int n, r') \<and>
           (\<forall>j. bit r' j \<longleftrightarrow> bit r1 j \<or> (\<exists>t. Suc a \<le> t \<and> t < n \<and> t mod 64 = j \<and> tail_match cOp (setp ! t) v))"
    by (rule Suc.hyps(1) [OF d]) (use an Suc.prems in simp_all)
  then obtain r' where r': "Where_tail cOp setp (int n) v (int (Suc a)) r1 = Some (int n, r')"
    "\<And>j. bit r' j \<longleftrightarrow> bit r1 j \<or> (\<exists>t. Suc a \<le> t \<and> t < n \<and> t mod 64 = j \<and> tail_match cOp (setp ! t) v)"
    by auto
  have r1: "bit r1 j \<longleftrightarrow> bit r j \<or> (a mod 64 = j \<and> tail_match cOp (setp ! a) v)" for j
    by (auto simp add: r1_def bit_or_single)
  have "bit r' j \<longleftrightarrow> bit r j \<or> (\<exists>t. a \<le> t \<and> t < n \<and> t mod 64 = j \<and> tail_match cOp (setp ! t) v)" for j
  proof -
    have "(\<exists>t. a \<le> t \<and> t < n \<and> t mod 64 = j \<and> tail_match cOp (setp ! t) v) \<longleftrightarrow>
          (a mod 64 = j \<and> tail_match cOp (setp ! a) v) \<or>
          (\<exists>t. Suc a \<le> t \<and> t < n \<and> t mod 64 = j \<and> tail_match cOp (setp ! t) v)"
      using an ex_from_split [of a "\<lambda>t. t < n \<and> t mod 64 = j \<and> tail_match cOp (setp ! t) v"]
      by simp
    then show ?thesis using r' (2) [of j] r1 [of j] by simp
  qed
  with step r'(1) show ?case by auto
qed

lemma sub_epi8_nth:
  "j < length a \<Longrightarrow> j < length b \<Longrightarrow> mm256_sub_epi8 a b ! j = a ! j - b ! j"
  by (simp add: mm256_sub_epi8_def)
lemma sub_epi8_length: "length (mm256_sub_epi8 a b) = min (length a) (length b)"
  by (simp add: mm256_sub_epi8_def)
lemma cmpgt_epi8_length: "length (mm256_cmpgt_epi8 a b) = min (length a) (length b)"
  by (simp add: mm256_cmpgt_epi8_def)
lemma set1_nth: "j < 32 \<Longrightarrow> mm256_set1_epi8 c ! j = c"
  by (simp add: mm256_set1_epi8_def)
lemma set1_length: "length (mm256_set1_epi8 c) = 32"
  by (simp add: mm256_set1_epi8_def)
lemma minus_minus_128: "a - (- 128 :: 8 word) = a - 128"
  by simp

section \<open>The effect of \<open>Where\<close> on every word of the match vector\<close>

lemma block_length_nat: "int n - (int n AND 63) = 64 * int (n div 64)"
  by (simp add: and_63_int zdiv_int minus_mod_eq_mult_div)

lemma tail_result_spec:
  assumes "n \<le> length setp"
  shows "\<exists>R. Where_tail cOp setp (int n) v (64 * int (n div 64)) 0 = Some (int n, R) \<and>
             tail_result cOp setp (int n) v = Some R \<and>
             (\<forall>j. bit R j \<longleftrightarrow> j < n mod 64 \<and> tail_match cOp (setp ! (64 * (n div 64) + j)) v)"
proof -
  have a: "64 * (n div 64) \<le> n" by simp
  obtain R where R: "Where_tail cOp setp (int n) v (int (64 * (n div 64))) 0 = Some (int n, R)"
    "\<And>j. bit R j \<longleftrightarrow> bit (0::u64) j \<or>
        (\<exists>t. 64 * (n div 64) \<le> t \<and> t < n \<and> t mod 64 = j \<and> tail_match cOp (setp ! t) v)"
    using Where_tail_spec [OF a assms, of cOp v 0] by blast
  have "bit R j \<longleftrightarrow> j < n mod 64 \<and> tail_match cOp (setp ! (64 * (n div 64) + j)) v" for j
  proof
    assume "bit R j"
    then obtain t where t: "64 * (n div 64) \<le> t" "t < n" "t mod 64 = j" "tail_match cOp (setp ! t) v"
      using R(2) [of j] by auto
    have "t div 64 = n div 64"
      using t(1,2) by (metis div_le_mono div_mult_self1_is_m le_antisym less_imp_le_nat zero_less_numeral)
    then have "t = 64 * (n div 64) + j" using t(3) by (metis mult_div_mod_eq)
    moreover have "j < n mod 64" using t(2) calculation by (metis add_less_cancel_left mult_div_mod_eq)
    ultimately show "j < n mod 64 \<and> tail_match cOp (setp ! (64 * (n div 64) + j)) v"
      using t(4) by simp
  next
    assume j: "j < n mod 64 \<and> tail_match cOp (setp ! (64 * (n div 64) + j)) v"
    define t where "t = 64 * (n div 64) + j"
    have "64 * (n div 64) \<le> t" by (simp add: t_def)
    moreover have "t < n" using j by (metis add_less_cancel_left mult_div_mod_eq t_def)
    moreover have "j < 64" using j mod_less_divisor [of 64 n] by linarith
    then have "t mod 64 = j" by (simp add: t_def)
    ultimately show "bit R j" using R(2) [of j] j unfolding t_def by blast
  qed
  moreover have "tail_result cOp setp (int n) v = Some R"
    using R(1) by (simp add: tail_result_def block_length_nat)
  ultimately show ?thesis using R(1) by auto
qed

lemma Where_spec:
  assumes "n \<le> length setp" "(n + 63) div 64 \<le> length mv"
  shows "\<exists>mv'. Where cOp bOp sign setp (int n) v mv = Some mv' \<and> length mv' = length mv \<and>
           (\<forall>k<length mv. mv' ! k =
              (if k < n div 64 then combine bOp (mv ! k) (the (chunk_result cOp sign setp v k))
               else if k = n div 64 \<and> 0 < n mod 64
                    then combine bOp (mv ! k) (the (tail_result cOp setp (int n) v))
                    else mv ! k))"
proof -
  define m where "m = n div 64"
  have m1: "64 * m \<le> length setp" using assms(1) by (simp add: m_def)
  have m2: "m \<le> length mv" using assms(2) by (simp add: m_def) 
  obtain mv1 where mv1: "Where_blocks cOp bOp sign setp (bov sign v) (64 * int m) 0 mv = Some (64 * int m, mv1)"
      "length mv1 = length mv"
      "\<And>k. k < length mv \<Longrightarrow> mv1 ! k =
              (if 0 \<le> k \<and> k < m
               then combine bOp (mv ! k) (the (block_result cOp sign setp (bov sign v) (64 * int k)))
               else mv ! k)"
    using Where_blocks_spec [of 0 m setp mv cOp bOp sign "bov sign v", OF _ m1 m2] by auto
  have W: "Where cOp bOp sign setp (int n) v mv =
           (if 0 < n mod 64 then
               (case Where_tail cOp setp (int n) v (64 * int m) 0 of
                  None \<Rightarrow> None
                | Some (i', result) \<Rightarrow>
                    update_u64 mv1 (drop_bit 6 i') (\<lambda>old. combine bOp old result))
             else Some mv1)"
  proof -
    have bl: "int n - (int n AND 63) = 64 * int m"
      by (simp only: block_length_nat m_def)
    have a63: "(0 < (int n AND 63)) = (0 < n mod 64)"
    proof -
      have "int n mod 64 = int (n mod 64)" by (simp add: zmod_int)
      then show ?thesis by (simp only: and_63_int of_nat_0_less_iff)
    qed
    show ?thesis
      unfolding Where_def Let_def bov_def [symmetric] bl a63
      by (simp only: mv1(1) option.case prod.case)
  qed
  show ?thesis
  proof (cases "0 < n mod 64")
    case False
    then have "Where cOp bOp sign setp (int n) v mv = Some mv1" using W by simp
    moreover have "mv1 ! k =
              (if k < m then combine bOp (mv ! k) (the (chunk_result cOp sign setp v k))
               else if k = m \<and> 0 < n mod 64
                    then combine bOp (mv ! k) (the (tail_result cOp setp (int n) v))
                    else mv ! k)" if "k < length mv" for k
      using mv1(3) [OF that] False by (simp add: chunk_result_def)
    ultimately show ?thesis using mv1(2) unfolding m_def by simp
  next
    case True
    obtain R where R: "Where_tail cOp setp (int n) v (64 * int m) 0 = Some (int n, R)"
      "tail_result cOp setp (int n) v = Some R"
      using tail_result_spec [OF assms(1), of cOp v] by (auto simp add: m_def)
    define q where "q = n div 64"
    have "64 * q + n mod 64 = n" unfolding q_def by (rule mult_div_mod_eq)
    then have "64 * q + 64 \<le> n + 63" using True by linarith
    then have "Suc (n div 64) * 64 \<le> n + 63" unfolding q_def by simp
    then have "Suc (n div 64) \<le> (n + 63) div 64"
      by (simp only: less_eq_div_iff_mult_less_eq [of 64, OF zero_less_numeral])
    then have "n div 64 < (n + 63) div 64" by simp
    then have ml: "m < length mv" using assms(2) unfolding m_def by simp
    have idx: "drop_bit 6 (int n) = int m"
      by (simp add: drop_bit_6_int m_def zdiv_int)
    have "update_u64 mv1 (int m) (\<lambda>old. combine bOp old R) = Some (mv1[m := combine bOp (mv1 ! m) R])"
      using ml mv1(2) update_u64_Some [of "int m" mv1] by simp
    then have W': "Where cOp bOp sign setp (int n) v mv = Some (mv1[m := combine bOp (mv1 ! m) R])"
      using True by (simp only: W R(1) idx if_True option.case prod.case)
    have "mv1 ! m = mv ! m" using mv1(3) [OF ml] by simp
    then have "(mv1[m := combine bOp (mv1 ! m) R]) ! k =
              (if k < m then combine bOp (mv ! k) (the (chunk_result cOp sign setp v k))
               else if k = m \<and> 0 < n mod 64
                    then combine bOp (mv ! k) (the (tail_result cOp setp (int n) v))
                    else mv ! k)" if "k < length mv" for k
      using that mv1(2) mv1(3) [OF that] True R(2) ml
      by (cases "k = m") (simp_all add: chunk_result_def)
    then show ?thesis using W' mv1(2) unfolding m_def by simp
  qed
qed

lemma chunk_result_bits:
  assumes "64 * k + 64 \<le> length setp"
  shows "\<exists>R. chunk_result cOp sign setp v k = Some R \<and>
           (\<forall>j<64. bit R j \<longleftrightarrow> naive_compare cOp sign (setp ! (64 * k + j)) v)"
proof -
  have "0 \<le> 64 * int k" "nat (64 * int k) + 64 \<le> length setp" "nat (64 * int k) = 64 * k"
    using assms by simp_all
  then show ?thesis
    using block_result_bits [of "64 * int k" setp cOp sign v]
    by (simp only: chunk_result_def)
qed

lemma chunk_in_range:
  assumes "k < n div 64" "n \<le> length setp"
  shows "64 * k + 64 \<le> length setp"
proof -
  have "Suc k \<le> n div 64" using assms(1) by simp
  then have "Suc k * 64 \<le> n"
    by (simp only: less_eq_div_iff_mult_less_eq [of 64, OF zero_less_numeral])
  then show ?thesis using assms(2) by simp
qed

lemma combine_cases:
  "(bOp = And \<longrightarrow> combine bOp B R = B AND R) \<and>
   (bOp = Or \<longrightarrow> combine bOp B R = B OR R) \<and>
   (bOp = AndNot \<longrightarrow> combine bOp B R = B AND NOT R)"
  by (simp add: combine_def)

lemma int_nat_div: "0 \<le> len \<Longrightarrow> nat (len div 64) = nat len div 64"
  by (simp add: nat_div_distrib)
lemma int_nat_mod: "0 \<le> len \<Longrightarrow> (0 < len mod 64) = (0 < nat len mod 64)"
proof -
  assume "0 \<le> len"
  then have "nat (len mod 64) = nat len mod 64" by (simp add: nat_mod_distrib)
  then show ?thesis by (metis zero_less_nat_eq)
qed
lemma Where_tail_word_index:
  assumes "0 < n mod 64"
  shows "n div 64 < (n + 63) div (64::nat)"
proof -
  define q where "q = n div 64"
  have "64 * q + n mod 64 = n" unfolding q_def by (rule mult_div_mod_eq)
  then have "64 * q + 64 \<le> n + 63" using assms by linarith
  then have "Suc (n div 64) * 64 \<le> n + 63" unfolding q_def by simp
  then have "Suc (n div 64) \<le> (n + 63) div 64"
    by (simp only: less_eq_div_iff_mult_less_eq [of 64, OF zero_less_numeral])
  then show ?thesis by simp
qed
lemma int_nat_ceil: "0 \<le> len \<Longrightarrow> nat ((len + 63) div 64) = (nat len + 63) div 64"
  by (simp add: nat_div_distrib nat_add_distrib)

section \<open>The hand-written scan against the generic one\<close>

lemma block_result_GreaterThan_Unsigned:
  "block_result GreaterThan Unsigned setp w i =
     (case mm256_loadu_si256 setp i of
        None \<Rightarrow> None
      | Some block1 \<Rightarrow>
         (case mm256_loadu_si256 setp (i + 32) of
            None \<Rightarrow> None
          | Some block2 \<Rightarrow>
              Some (push_bit 32 (ucast (mm256_movemask_epi8 (mm256_cmpgt_epi8
                       (mm256_sub_epi8 block2 (mm256_set1_epi8 (- 128))) w)) :: u64)
                    OR ucast (mm256_movemask_epi8 (mm256_cmpgt_epi8
                       (mm256_sub_epi8 block1 (mm256_set1_epi8 (- 128))) w)))))"
  by (simp add: block_result_def Let_def split: option.splits)

lemma AndWhereGreaterThan_blocks_eq:
  "AndWhereGreaterThan_blocks setp (mm256_set1_epi8 (- 128)) w bl i mv =
   Where_blocks GreaterThan And Unsigned setp w bl i mv"
proof (induction setp "mm256_set1_epi8 (- 128)" w bl i mv rule: AndWhereGreaterThan_blocks.induct)
  case (1 setp w bl i mv)
  show ?case
  proof (cases "i < bl")
    case False
    then show ?thesis
      by (subst AndWhereGreaterThan_blocks.simps, subst Where_blocks.simps) simp
  next
    case True
    show ?thesis
    proof (cases "mm256_loadu_si256 setp i")
      case None
      then show ?thesis using True
        by (subst AndWhereGreaterThan_blocks.simps, subst Where_blocks.simps)
           (simp add: block_result_GreaterThan_Unsigned)
    next
      case b1: (Some block1)
      show ?thesis
      proof (cases "mm256_loadu_si256 setp (i + 32)")
        case None
        then show ?thesis using True b1
          by (subst AndWhereGreaterThan_blocks.simps, subst Where_blocks.simps)
             (simp add: block_result_GreaterThan_Unsigned Let_def)
      next
        case b2: (Some block2)
        define result where "result = push_bit 32 (ucast (mm256_movemask_epi8 (mm256_cmpgt_epi8
                       (mm256_sub_epi8 block2 (mm256_set1_epi8 (- 128))) w)) :: u64)
                    OR ucast (mm256_movemask_epi8 (mm256_cmpgt_epi8
                       (mm256_sub_epi8 block1 (mm256_set1_epi8 (- 128))) w))"
        have c: "(\<lambda>old. combine And old result) = (\<lambda>old. old AND result)"
          by (simp add: combine_def)
        show ?thesis
        proof (cases "update_u64 mv (drop_bit 6 i) (\<lambda>old. old AND result)")
          case None
          then show ?thesis using True b1 b2
            by (subst AndWhereGreaterThan_blocks.simps, subst Where_blocks.simps)
               (simp add: block_result_GreaterThan_Unsigned Let_def c result_def [symmetric])
        next
          case (Some mv1)
          have IH: "AndWhereGreaterThan_blocks setp (mm256_set1_epi8 (- 128)) w bl (i + 64) mv1 =
                    Where_blocks GreaterThan And Unsigned setp w bl (i + 64) mv1"
            by (rule "1.hyps" [OF True b1 refl refl refl b2 refl refl refl refl refl refl])
               (use Some in \<open>simp_all add: result_def\<close>)
          show ?thesis using True b1 b2 Some IH
            by (subst AndWhereGreaterThan_blocks.simps, subst Where_blocks.simps)
               (simp add: block_result_GreaterThan_Unsigned Let_def c result_def [symmetric])
        qed
      qed
    qed
  qed
qed

lemma AndWhereGreaterThan_tail_eq:
  "AndWhereGreaterThan_tail setp len v i r = Where_tail GreaterThan setp len v i r"
proof (induction setp len v i r rule: AndWhereGreaterThan_tail.induct)
  case (1 setp len v i r)
  show ?case
  proof (cases "i < len")
    case False
    then show ?thesis
      by (subst AndWhereGreaterThan_tail.simps, subst Where_tail.simps) simp
  next
    case True
    show ?thesis
    proof (cases "load_u8 setp i")
      case None
      then show ?thesis using True
        by (subst AndWhereGreaterThan_tail.simps, subst Where_tail.simps) simp
    next
      case (Some b)
      show ?thesis using True Some "1.IH" [OF True Some]
        by (subst AndWhereGreaterThan_tail.simps, subst Where_tail.simps)
           (simp add: tail_match_def)
    qed
  qed
qed

lemma Where_blocks_index:
  "Where_blocks cOp bOp sign setp w bl i mv = Some (i', mv') \<Longrightarrow> i \<le> bl \<Longrightarrow>
   (bl - i) mod 64 = 0 \<Longrightarrow> i' = bl"
proof (induction cOp bOp sign setp w bl i mv rule: Where_blocks.induct)
  case (1 cOp bOp sign setp w bl i mv)
  show ?case
  proof (cases "i < bl")
    case False
    then have "Where_blocks cOp bOp sign setp w bl i mv = Some (i, mv)"
      by (subst Where_blocks.simps) simp
    then show ?thesis using "1.prems" False by simp
  next
    case True
    have "64 dvd bl - i" using "1.prems"(3) by (simp add: dvd_eq_mod_eq_0)
    then obtain q where q: "bl - i = 64 * q" by (auto elim: dvdE)
    then have "0 < q" using True by simp
    then have le: "i + 64 \<le> bl" using q by simp
    have md: "(bl - (i + 64)) mod 64 = 0"
    proof -
      have "bl - (i + 64) = (bl - i) - 64" by simp
      also have "\<dots> = 64 * (q - 1)" by (simp only: q right_diff_distrib mult_1_right)
      finally have e: "bl - (i + 64) = 64 * (q - 1)" .
      show ?thesis unfolding e by simp
    qed
    from "1.prems"(1) True obtain result mv1 where
      s: "block_result cOp sign setp w i = Some result"
         "update_u64 mv (drop_bit 6 i) (\<lambda>old. combine bOp old result) = Some mv1"
         "Where_blocks cOp bOp sign setp w bl (i + 64) mv1 = Some (i', mv')"
      by (subst (asm) Where_blocks.simps) (auto split: option.splits)
    show ?thesis by (rule "1.IH" [OF True s(1) s(2) s(3) le md])
  qed
qed

lemma Where_tail_index:
  "Where_tail cOp setp len v i r = Some (i', r') \<Longrightarrow> i \<le> len \<Longrightarrow> i' = len"
proof (induction cOp setp len v i r rule: Where_tail.induct)
  case (1 cOp setp len v i r)
  show ?case
  proof (cases "i < len")
    case False
    then have "Where_tail cOp setp len v i r = Some (i, r)"
      by (subst Where_tail.simps) simp
    then show ?thesis using "1.prems" False by simp
  next
    case True
    from "1.prems"(1) True obtain b where
      s: "load_u8 setp i = Some b"
         "Where_tail cOp setp len v (i + 1)
            (if tail_match cOp b v then r OR push_bit (nat (i AND 63)) 1 else r) = Some (i', r')"
      by (subst (asm) Where_tail.simps) (auto split: option.splits)
    have "i + 1 \<le> len" using True by simp
    then show ?thesis by (rule "1.IH" [OF True s(1) s(2)])
  qed
qed

lemma Internal_eq_Where:
  assumes "0 \<le> len"
  shows "AndWhereGreaterThanInternal setp len v mv = Where GreaterThan And Unsigned setp len v mv"
proof -
  define w where "w = mm256_sub_epi8 (mm256_set1_epi8 v) (mm256_set1_epi8 (- 128))"
  define bl where "bl = len - (len AND 63)"
  have bl0: "0 \<le> bl" "(bl - 0) mod 64 = 0" "bl \<le> len"
    using assms by (simp_all add: bl_def and_63_int minus_mod_eq_mult_div)
  have I: "AndWhereGreaterThanInternal setp len v mv =
      (case Where_blocks GreaterThan And Unsigned setp w bl 0 mv of
           None \<Rightarrow> None
         | Some (i, matchVector1) \<Rightarrow>
             if 0 < (len AND 63) then
               (case Where_tail GreaterThan setp len v i 0 of
                  None \<Rightarrow> None
                | Some (i', lastw) \<Rightarrow>
                    update_u64 matchVector1 (drop_bit 6 len) (\<lambda>old. old AND lastw))
             else Some matchVector1)"
    by (simp add: AndWhereGreaterThanInternal_def Let_def AndWhereGreaterThan_blocks_eq
          AndWhereGreaterThan_tail_eq w_def bl_def cong: option.case_cong prod.case_cong if_cong)
  have W: "Where GreaterThan And Unsigned setp len v mv =
      (case Where_blocks GreaterThan And Unsigned setp w bl 0 mv of
           None \<Rightarrow> None
         | Some (i, matchVector1) \<Rightarrow>
             if 0 < (len AND 63) then
               (case Where_tail GreaterThan setp len v i 0 of
                  None \<Rightarrow> None
                | Some (i', result) \<Rightarrow>
                    update_u64 matchVector1 (drop_bit 6 i') (\<lambda>old. old AND result))
             else Some matchVector1)"
    by (simp add: Where_def Let_def w_def bl_def combine_def
          cong: option.case_cong prod.case_cong if_cong)
  show ?thesis
  proof (cases "Where_blocks GreaterThan And Unsigned setp w bl 0 mv")
    case None
    then show ?thesis by (simp only: I W option.case)
  next
    case (Some p)
    obtain i mv1 where p: "p = (i, mv1)" by (cases p)
    have i: "i = bl" using Where_blocks_index [OF Some [unfolded p] bl0(1) bl0(2)] .
    show ?thesis
    proof (cases "Where_tail GreaterThan setp len v i 0")
      case None
      then show ?thesis using Some p by (simp only: I W option.case prod.case)
    next
      case t: (Some pt)
      obtain i' r where pt: "pt = (i', r)" by (cases pt)
      have "i' = len" using Where_tail_index [OF t [unfolded pt]] bl0(3) i by simp
      then show ?thesis using Some p t pt by (simp only: I W option.case prod.case)
    qed
  qed
qed

section \<open>The match bit of every row\<close>

text \<open>
  Or-combined into an all-zero match vector, the scan leaves in the bit of row \<open>i\<close> the
  result of the lane comparison when the row lies in a full 64-row chunk, and the result of
  the byte comparison of the tail loop otherwise. The lane comparison is the naive comparison
  under the chosen signedness; the tail comparison is the naive unsigned comparison.
\<close>

lemma tail_match_unsigned: "tail_match cOp b v = naive_compare cOp Unsigned b v"
  by (cases cOp) (auto simp add: tail_match_def naive_compare_def word_less_def word_le_def uint_eq_iff8)

lemma combine_Or_zero: "combine Or 0 R = R"
  by (simp add: combine_def)

lemma row_split:
  fixes i n :: nat
  assumes "i < n"
  shows "(i div 64 < n div 64 \<and> i < 64 * (n div 64)) \<or>
         (i div 64 = n div 64 \<and> \<not> i < 64 * (n div 64) \<and> i mod 64 < n mod 64)"
proof -
  define q r a b where "q = n div 64" and "r = n mod 64" and "a = i div 64" and "b = i mod 64"
  have n: "n = 64 * q + r" and r: "r < 64" by (simp_all add: q_def r_def)
  have i: "i = 64 * a + b" and b: "b < 64" by (simp_all add: a_def b_def)
  have "(a < q \<and> i < 64 * q) \<or> (a = q \<and> \<not> i < 64 * q \<and> b < r)"
  proof (cases "a < q")
    case True
    then have "i < 64 * q" using i b by linarith
    with True show ?thesis by simp
  next
    case False
    have "\<not> q < a" using assms n r i b by linarith
    with False have aq: "a = q" by simp
    have "\<not> i < 64 * q" using aq i by linarith
    moreover have "b < r" using aq assms n i by linarith
    ultimately show ?thesis using aq by simp
  qed
  then show ?thesis by (simp only: q_def r_def a_def b_def)
qed

lemma Where_Or_rows:
  assumes "n \<le> length setp" "(n + 63) div 64 \<le> m"
  shows "\<exists>a. Where cOp Or sign setp (int n) v (replicate m 0) = Some a \<and> length a = m \<and>
           (\<forall>i<n. bit (a ! (i div 64)) (i mod 64) \<longleftrightarrow>
                 (if i < 64 * (n div 64) then naive_compare cOp sign (setp ! i) v
                  else tail_match cOp (setp ! i) v))"
proof -
  have sz: "(n + 63) div 64 \<le> length (replicate m (0::u64))" using assms(2) by simp
  obtain a where a: "Where cOp Or sign setp (int n) v (replicate m 0) = Some a"
    "length a = length (replicate m (0::u64))"
    "\<And>k. k < length (replicate m (0::u64)) \<Longrightarrow> a ! k =
              (if k < n div 64 then combine Or (replicate m 0 ! k) (the (chunk_result cOp sign setp v k))
               else if k = n div 64 \<and> 0 < n mod 64
                    then combine Or (replicate m 0 ! k) (the (tail_result cOp setp (int n) v))
                    else replicate m 0 ! k)"
    using Where_spec [OF assms(1) sz, of cOp Or sign v] by blast
  have le: "n div 64 \<le> m" using assms(2) by (meson div_le_mono le_add1 le_trans)
  have "bit (a ! (i div 64)) (i mod 64) \<longleftrightarrow>
                 (if i < 64 * (n div 64) then naive_compare cOp sign (setp ! i) v
                  else tail_match cOp (setp ! i) v)" if i: "i < n" for i
  proof -
    from row_split [OF i] show ?thesis
    proof
      assume c: "i div 64 < n div 64 \<and> i < 64 * (n div 64)"
      then have k: "i div 64 < m" using le by simp
      obtain R where R: "chunk_result cOp sign setp v (i div 64) = Some R"
        "\<And>j. j < 64 \<Longrightarrow> bit R j \<longleftrightarrow> naive_compare cOp sign (setp ! (64 * (i div 64) + j)) v"
        using chunk_result_bits [OF chunk_in_range [OF conjunct1 [OF c] assms(1)], of cOp sign v]
        by blast
      have "a ! (i div 64) = R" using a(3) [of "i div 64"] k c R(1) by (simp add: combine_Or_zero)
      then show ?thesis using R(2) [of "i mod 64"] c by simp
    next
      assume c: "i div 64 = n div 64 \<and> \<not> i < 64 * (n div 64) \<and> i mod 64 < n mod 64"
      then have t: "0 < n mod 64" by simp
      then have k: "n div 64 < m" using Where_tail_word_index [OF t] assms(2) by simp
      obtain R where R: "tail_result cOp setp (int n) v = Some R"
        "\<And>j. bit R j \<longleftrightarrow> j < n mod 64 \<and> tail_match cOp (setp ! (64 * (n div 64) + j)) v"
        using tail_result_spec [OF assms(1), of cOp v] by blast
      have "a ! (n div 64) = R" using a(3) [of "n div 64"] k t R(1) by (simp add: combine_Or_zero)
      moreover have "64 * (n div 64) + i mod 64 = i" using c mult_div_mod_eq [of 64 i] by simp
      ultimately show ?thesis using R(2) [of "i mod 64"] c by simp
    qed
  qed
  then show ?thesis using a(1,2) by simp
qed

lemma complement_rows:
  assumes sz: "n \<le> length setp" "(n + 63) div 64 \<le> m"
    and tm: "\<And>b. tail_match c' b v = (\<not> tail_match c b v)"
    and nc: "\<And>b. naive_compare c' sign b v = (\<not> naive_compare c sign b v)"
  shows "\<exists>x y. Where c Or sign setp (int n) v (replicate m 0) = Some x \<and>
               Where c' Or sign setp (int n) v (replicate m 0) = Some y \<and>
               length x = m \<and> length y = m \<and>
               (\<forall>i<n. bit (NOT (x ! (i div 64))) (i mod 64) \<longleftrightarrow> bit (y ! (i div 64)) (i mod 64))"
proof -
  obtain x where x: "Where c Or sign setp (int n) v (replicate m 0) = Some x" "length x = m"
    "\<And>i. i < n \<Longrightarrow> bit (x ! (i div 64)) (i mod 64) \<longleftrightarrow>
                 (if i < 64 * (n div 64) then naive_compare c sign (setp ! i) v
                  else tail_match c (setp ! i) v)"
    using Where_Or_rows [OF sz, of c sign v] by blast
  obtain y where y: "Where c' Or sign setp (int n) v (replicate m 0) = Some y" "length y = m"
    "\<And>i. i < n \<Longrightarrow> bit (y ! (i div 64)) (i mod 64) \<longleftrightarrow>
                 (if i < 64 * (n div 64) then naive_compare c' sign (setp ! i) v
                  else tail_match c' (setp ! i) v)"
    using Where_Or_rows [OF sz, of c' sign v] by blast
  have "bit (NOT (x ! (i div 64))) (i mod 64) \<longleftrightarrow> bit (y ! (i div 64)) (i mod 64)" if "i < n" for i
  proof -
    have "i mod 64 < 64" by simp
    then have "bit (NOT (x ! (i div 64))) (i mod 64) \<longleftrightarrow> \<not> bit (x ! (i div 64)) (i mod 64)"
      by (simp add: bit_not_iff)
    then show ?thesis using x(3) [OF that] y(3) [OF that] tm nc by simp
  qed
  then show ?thesis using x(1,2) y(1,2) by blast
qed

lemma complement_whole:
  fixes x y :: "u64 list"
  assumes "length x = m" "length y = m"
    and "\<And>i. i < 64 * m \<Longrightarrow> bit (NOT (x ! (i div 64))) (i mod 64) \<longleftrightarrow> bit (y ! (i div 64)) (i mod 64)"
  shows "map NOT x = y"
proof (rule nth_equalityI)
  show "length (map NOT x) = length y" using assms(1,2) by simp
next
  fix k assume "k < length (map NOT x)"
  then have k: "k < m" using assms(1) by simp
  have "NOT (x ! k) = y ! k"
  proof (rule bit_word_eqI)
    fix j assume "j < LENGTH(64)"
    then have j: "j < 64" by simp
    then have "64 * k + j < 64 * m" using k by linarith
    moreover have "(64 * k + j) div 64 = k" "(64 * k + j) mod 64 = j" using j by simp_all
    ultimately show "bit (NOT (x ! k)) j \<longleftrightarrow> bit (y ! k) j"
      using assms(3) [of "64 * k + j"] by simp
  qed
  then show "map NOT x ! k = y ! k" using k assms(1) by simp
qed

lemma tail_match_complement:
  "tail_match LessThanOrEqual b v = (\<not> tail_match GreaterThan b v)"
  "tail_match GreaterThanOrEqual b v = (\<not> tail_match LessThan b v)"
  "tail_match NotEquals b v = (\<not> tail_match Equals b v)"
  by (auto simp add: tail_match_def)

lemma naive_compare_complement:
  "naive_compare LessThanOrEqual sign b v = (\<not> naive_compare GreaterThan sign b v)"
  "naive_compare GreaterThanOrEqual sign b v = (\<not> naive_compare LessThan sign b v)"
  "naive_compare NotEquals sign b v = (\<not> naive_compare Equals sign b v)"
  by (auto simp add: naive_compare_def Let_def)

lemma Where_rows_naive:
  assumes "n \<le> length setp" "(n + 63) div 64 \<le> m"
  shows "\<exists>a. Where cOp Or sign setp (int n) v (replicate m 0) = Some a \<and> length a = m \<and>
           (\<forall>i<n. sign = Unsigned \<or> i < 64 * (n div 64) \<longrightarrow>
                 (bit (a ! (i div 64)) (i mod 64) \<longleftrightarrow> naive_compare cOp sign (setp ! i) v))"
proof -
  obtain a where a: "Where cOp Or sign setp (int n) v (replicate m 0) = Some a" "length a = m"
    "\<And>i. i < n \<Longrightarrow> bit (a ! (i div 64)) (i mod 64) \<longleftrightarrow>
                 (if i < 64 * (n div 64) then naive_compare cOp sign (setp ! i) v
                  else tail_match cOp (setp ! i) v)"
    using Where_Or_rows [OF assms, of cOp sign v] by blast
  have "bit (a ! (i div 64)) (i mod 64) \<longleftrightarrow> naive_compare cOp sign (setp ! i) v"
    if "i < n" "sign = Unsigned \<or> i < 64 * (n div 64)" for i
    using a(3) [OF that(1)] that(2) by (auto simp add: tail_match_unsigned)
  then show ?thesis using a(1,2) by blast
qed

lemma tail_result_real_rows:
  assumes "n \<le> length setp"
  shows "\<exists>R. tail_result cOp setp (int n) v = Some R \<and>
           (\<forall>j. bit R j \<longrightarrow> j < n mod 64) \<and>
           (\<forall>j<n mod 64. bit R j \<longleftrightarrow> naive_compare cOp Unsigned (setp ! (64 * (n div 64) + j)) v)"
  using tail_result_spec [OF assms, of cOp v] by (auto simp add: tail_match_unsigned)

lemma Where_Or_above:
  assumes "n \<le> length setp" "(n + 63) div 64 \<le> m"
  shows "\<exists>a. Where cOp Or sign setp (int n) v (replicate m 0) = Some a \<and> length a = m \<and>
           (\<forall>k<m. \<forall>j. n \<le> 64 * k + j \<longrightarrow> \<not> bit (a ! k) j)"
proof -
  have sz: "(n + 63) div 64 \<le> length (replicate m (0::u64))" using assms(2) by simp
  obtain a where a: "Where cOp Or sign setp (int n) v (replicate m 0) = Some a"
    "length a = length (replicate m (0::u64))"
    "\<And>k. k < length (replicate m (0::u64)) \<Longrightarrow> a ! k =
              (if k < n div 64 then combine Or (replicate m 0 ! k) (the (chunk_result cOp sign setp v k))
               else if k = n div 64 \<and> 0 < n mod 64
                    then combine Or (replicate m 0 ! k) (the (tail_result cOp setp (int n) v))
                    else replicate m 0 ! k)"
    using Where_spec [OF assms(1) sz, of cOp Or sign v] by blast
  obtain R where R: "tail_result cOp setp (int n) v = Some R"
    "\<And>j. bit R j \<longleftrightarrow> j < n mod 64 \<and> tail_match cOp (setp ! (64 * (n div 64) + j)) v"
    using tail_result_spec [OF assms(1), of cOp v] by blast
  have "\<not> bit (a ! k) j" if k: "k < m" and above: "n \<le> 64 * k + j" for k j
  proof
    assume b: "bit (a ! k) j"
    then have j: "j < 64" using bit_imp_le_length [of "a ! k" j] by simp
    have nchunk: "\<not> k < n div 64"
    proof
      assume "k < n div 64"
      then have "Suc k \<le> n div 64" by simp
      then have "Suc k * 64 \<le> n"
        by (simp only: less_eq_div_iff_mult_less_eq [of 64, OF zero_less_numeral])
      then show False using above j by simp
    qed
    show False
    proof (cases "k = n div 64 \<and> 0 < n mod 64")
      case True
      then have "a ! k = R" using a(3) [of k] k nchunk R(1) by (simp add: combine_Or_zero)
      then have "j < n mod 64" using b R(2) [of j] by simp
      moreover have "64 * (n div 64) + n mod 64 = n" by (rule mult_div_mod_eq)
      ultimately show False using above True by linarith
    next
      case False
      then have "a ! k = 0" using a(3) [of k] k nchunk by auto
      then show False using b by simp
    qed
  qed
  then show ?thesis using a(1,2) by simp
qed

lemma naive_GreaterThan_Unsigned:
  "naive_compare GreaterThan Unsigned x v \<longleftrightarrow> uint v < uint x"
  by (simp add: naive_compare_def)

lemma bov_Unsigned:
  "bov Unsigned v = mm256_sub_epi8 (mm256_set1_epi8 v) (mm256_set1_epi8 (- 128))"
  by (simp add: bov_def)

lemma Where_Or_above_of:
  assumes "Where cOp Or sign setp (int n) v (replicate m 0) = Some a"
    and "n \<le> length setp" "(n + 63) div 64 \<le> m"
  shows "k < m \<Longrightarrow> n \<le> 64 * k + j \<Longrightarrow> \<not> bit (a ! k) j"
  using Where_Or_above [OF assms(2,3), of cOp sign v] assms(1) by auto

section \<open>The counting loop\<close>

lemma set_bit_count_filter [code]: "set_bit_count w = length (filter (bit w) [0..<64])"
proof -
  have "{k. bit w k} = set (filter (bit w) [0..<64])"
    by (auto dest: bit_imp_le_length)
  moreover have "distinct (filter (bit w) [0..<64])" by simp
  ultimately show ?thesis
    by (simp only: set_bit_count_def distinct_card)
qed

lemma set_bit_count_le: "set_bit_count w \<le> 64"
  using length_filter_le [of "bit w" "[0..<64]"] by (simp add: set_bit_count_filter)

lemma popcnt_eq: "mm_popcnt_u64 w = of_nat (set_bit_count w)"
  by (simp add: mm_popcnt_u64_def set_bit_count_filter)

lemma load_u64_Some: "a < length mv \<Longrightarrow> load_u64 mv (int a) = Some (mv ! a)"
  by (simp add: load_u64_def)

lemma CountInternal_loop_sum:
  assumes "a \<le> n" "n \<le> length mv"
  shows "CountInternal_loop mv (int n) (int a) c =
           Some (c + of_nat (sum_list (map set_bit_count (drop a (take n mv)))))"
  using assms
proof (induction "n - a" arbitrary: a c)
  case 0
  then have "a = n" by simp
  then show ?case by (subst CountInternal_loop.simps) simp
next
  case (Suc d)
  then have an: "a < n" by simp
  then have al: "a < length (take n mv)" using Suc.prems by simp
  have d: "d = n - Suc a" using Suc.hyps(2) by simp
  have step: "CountInternal_loop mv (int n) (int a) c =
              CountInternal_loop mv (int n) (int (Suc a)) (c + mm_popcnt_u64 (mv ! a))"
    using an Suc.prems
    by (subst CountInternal_loop.simps) (simp add: load_u64_Some add.commute)
  have "drop a (take n mv) = mv ! a # drop (Suc a) (take n mv)"
    using Cons_nth_drop_Suc [OF al] an by simp
  then show ?case
    using Suc.hyps(1) [OF d, of "c + mm_popcnt_u64 (mv ! a)"] an Suc.prems step
    by (simp add: popcnt_eq)
qed

lemma ucast_of_nat_64_32: "(ucast (of_nat s :: u64) :: u32) = of_nat s"
  by (rule bit_word_eqI) (auto simp add: bit_ucast_iff bit_of_nat_iff)

lemma cast_to_int: "sint (ucast (of_nat s :: u64) :: u32) = signed_take_bit 31 (int s)"
  by (simp add: ucast_of_nat_64_32 signed_of_nat)

lemma CountInternal_value:
  assumes "n \<le> length mv"
  shows "CountInternal mv (int n) =
           Some (signed_take_bit 31 (int (sum_list (map set_bit_count (take n mv)))), mv)"
  using CountInternal_loop_sum [of 0 n mv 0] assms
  by (simp add: CountInternal_def cast_to_int)

lemma sum_set_bit_count_le: "sum_list (map set_bit_count ws) \<le> 64 * length ws"
  by (induction ws) (use set_bit_count_le in \<open>simp_all add: add_mono\<close>)

section \<open>The capacity guard of the managed entry point\<close>

text \<open>
  As long as the 32-bit product \<open>matchVector->Length * 64\<close> does not wrap (fewer than
  \<open>2^25\<close> words), the guard is the comparison of the capacity with the row count: a match
  vector that is too small is returned unchanged, and otherwise, on a non-empty column, the
  scan runs and is defined. A match vector of \<open>2^25\<close> words makes the product \<open>-2^31\<close>, and
  the scan is skipped.
\<close>

lemma guard_product:
  assumes "l < 2 ^ 25"
  shows "sint ((word_of_nat l :: u32) * 64) = 64 * int l"
proof -
  have "(word_of_nat l :: u32) * 64 = word_of_nat (l * 64)" by simp
  moreover have "sint (word_of_nat (l * 64) :: u32) = signed_take_bit 31 (int (l * 64))"
    by (simp only: signed_of_nat) simp
  moreover have "signed_take_bit 31 (int (l * 64)) = int (l * 64)"
    by (rule signed_take_bit_int_eq_self) (use assms in simp_all)
  ultimately show ?thesis by simp
qed

lemma Internal_defined:
  assumes "length setp \<le> 64 * length mv"
  shows "\<exists>mv'. AndWhereGreaterThanInternal setp (int (length setp)) v mv = Some mv' \<and>
               Where GreaterThan And Unsigned setp (int (length setp)) v mv = Some mv'"
proof -
  have "(length setp + 63) div 64 \<le> length mv"
  proof -
    have "length setp + 63 < 64 * Suc (length mv)" using assms by simp
    then have "(length setp + 63) div 64 < Suc (length mv)"
      by (simp only: div_less_iff_less_mult [of 64, OF zero_less_numeral] mult.commute)
    then show ?thesis by simp
  qed
  then obtain mv' where "Where GreaterThan And Unsigned setp (int (length setp)) v mv = Some mv'"
    using Where_spec [of "length setp" setp mv GreaterThan And Unsigned v] by auto
  then show ?thesis
    using Internal_eq_Where [of "int (length setp)" setp v mv] by simp
qed

lemma AndWhereGreaterThan_guard:
  assumes "length setp < 2 ^ 31" and "length mv < 2 ^ 25"
  shows "(64 * length mv < length setp \<longrightarrow> AndWhereGreaterThan setp v mv = Inr mv) \<and>
         (length setp \<le> 64 * length mv \<and> setp \<noteq> [] \<longrightarrow>
            (\<exists>mv'. AndWhereGreaterThanInternal setp (int (length setp)) v mv = Some mv' \<and>
                   AndWhereGreaterThan setp v mv = Inr mv'))"
proof (intro conjI impI)
  assume "64 * length mv < length setp"
  then show "AndWhereGreaterThan setp v mv = Inr mv"
    using assms(2) by (simp add: AndWhereGreaterThan_def guard_product)
next
  assume a: "length setp \<le> 64 * length mv \<and> setp \<noteq> []"
  then have ne: "mv \<noteq> []" by auto
  obtain mv' where mv': "AndWhereGreaterThanInternal setp (int (length setp)) v mv = Some mv'"
    using Internal_defined [OF conjunct1 [OF a], of v] by blast
  have "\<not> 64 * int (length mv) < int (length setp)" using a by linarith
  then have "AndWhereGreaterThan setp v mv = Inr mv'"
    using assms(2) a ne mv' by (simp add: AndWhereGreaterThan_def guard_product)
  with mv' show "\<exists>mv'. AndWhereGreaterThanInternal setp (int (length setp)) v mv = Some mv' \<and>
                   AndWhereGreaterThan setp v mv = Inr mv'" by blast
qed

lemma AndWhereGreaterThan_guard_wraps:
  assumes "length mv = 33554432" and "setp \<noteq> []"
  shows "AndWhereGreaterThan setp v mv = Inr mv"
  using assms by (simp add: AndWhereGreaterThan_def)

lemma bias_arithmetic:
  fixes a b v :: u8 and x :: m256i
  shows "(sint (b - 0x80) < sint (a - 0x80) \<longleftrightarrow> uint b < uint a)
       \<and> - 128 \<le> sint (a - 0x80) \<and> sint (a - 0x80) \<le> 127
       \<and> a - 0x80 = a XOR 0x80
       \<and> mm256_cmpgt_epi8 (mm256_sub_epi8 x (mm256_set1_epi8 (- 128)))
            (mm256_sub_epi8 (mm256_set1_epi8 v) (mm256_set1_epi8 (- 128)))
          = map (\<lambda>d. if uint v < uint d then 0xFF else 0x00) (take 32 x)"
proof -
  have r: "0 \<le> uint a" "uint a < 256" using uint_lt2p [of a] by simp_all
  have lanes: "mm256_cmpgt_epi8 (mm256_sub_epi8 x (mm256_set1_epi8 (- 128)))
            (mm256_sub_epi8 (mm256_set1_epi8 v) (mm256_set1_epi8 (- 128)))
          = map (\<lambda>d. if uint v < uint d then 0xFF else 0x00) (take 32 x)"
  proof (rule nth_equalityI)
    show "length (mm256_cmpgt_epi8 (mm256_sub_epi8 x (mm256_set1_epi8 (- 128)))
            (mm256_sub_epi8 (mm256_set1_epi8 v) (mm256_set1_epi8 (- 128)))) =
          length (map (\<lambda>d. if uint v < uint d then 0xFF else 0x00 :: u8) (take 32 x))"
      by (simp add: cmpgt_epi8_length sub_epi8_length set1_length)
  next
    fix i
    assume "i < length (mm256_cmpgt_epi8 (mm256_sub_epi8 x (mm256_set1_epi8 (- 128)))
            (mm256_sub_epi8 (mm256_set1_epi8 v) (mm256_set1_epi8 (- 128))))"
    then have i: "i < 32" "i < length x"
      by (simp_all add: cmpgt_epi8_length sub_epi8_length set1_length)
    then show "mm256_cmpgt_epi8 (mm256_sub_epi8 x (mm256_set1_epi8 (- 128)))
            (mm256_sub_epi8 (mm256_set1_epi8 v) (mm256_set1_epi8 (- 128))) ! i =
          map (\<lambda>d. if uint v < uint d then 0xFF else 0x00) (take 32 x) ! i"
      by (simp only: cmpgt_nth sub_epi8_nth sub_epi8_length set1_length set1_nth
            min.idem min_less_iff_conj minus_minus_128 sint_bias nth_map length_take nth_take)
        simp
  qed
  have ord: "sint (b - 0x80) < sint (a - 0x80) \<longleftrightarrow> uint b < uint a"
    by (simp add: sint_bias)
  have rng: "- 128 \<le> sint (a - 0x80)" "sint (a - 0x80) \<le> 127"
    using r by (simp_all add: sint_bias)
  have "a - 0x80 = a XOR 0x80"
    by (rule sub_bias_xor)
  with ord rng lanes show ?thesis
    by (intro conjI)
qed

section \<open>The bias of the unsigned mode\<close>

text \<open>
  Claim C6. For all bytes \<open>a\<close> and \<open>b\<close>, subtracting the bias \<open>0x80\<close> from both and
  comparing the results as signed bytes gives the order of \<open>a\<close> and \<open>b\<close> as unsigned
  bytes; the biased byte lies in \<open>-128..127\<close>; subtracting \<open>0x80\<close> is the same as XOR
  with \<open>0x80\<close>; the signed lane compare of a biased data block against the biased
  broadcast scalar is the unsigned comparison of every data byte with the scalar. Therefore
  the scan in the unsigned mode, which applies the bias to the column bytes and to the
  scalar, compares as unsigned: the result word that the block body of \<open>Where\<close> computes for
  \<open>GreaterThan\<close> has bit \<open>j\<close> set exactly when byte \<open>i + j\<close> exceeds the scalar as an
  unsigned byte, and \<open>Where\<close>, Or-combined into an all-zero match vector, leaves in the bit
  of every row the unsigned comparison of its byte with the scalar, for each of the six
  operators.
\<close>

theorem unsigned_bias_preserves_order:
  fixes a b v :: u8 and x :: m256i
  shows "(sint (b - 0x80) < sint (a - 0x80) \<longleftrightarrow> uint b < uint a)
       \<and> - 128 \<le> sint (a - 0x80) \<and> sint (a - 0x80) \<le> 127
       \<and> a - 0x80 = a XOR 0x80
       \<and> mm256_cmpgt_epi8 (mm256_sub_epi8 x (mm256_set1_epi8 (- 128)))
            (mm256_sub_epi8 (mm256_set1_epi8 v) (mm256_set1_epi8 (- 128)))
          = map (\<lambda>d. if uint v < uint d then 0xFF else 0x00) (take 32 x)
       \<and> (0 \<le> i \<and> nat i + 64 \<le> length setp \<longrightarrow>
            (\<exists>R. block_result GreaterThan Unsigned setp
                    (mm256_sub_epi8 (mm256_set1_epi8 v) (mm256_set1_epi8 (- 128))) i = Some R \<and>
                 (\<forall>j<64. bit R j \<longleftrightarrow> uint v < uint (setp ! (nat i + j)))))
       \<and> (0 \<le> len \<and> nat len \<le> length setp \<and> nat ((len + 63) div 64) \<le> m \<longrightarrow>
            (\<exists>mv'. Where cOp Or Unsigned setp len v (replicate m 0) = Some mv' \<and>
                 (\<forall>r<nat len. bit (mv' ! (r div 64)) (r mod 64) \<longleftrightarrow>
                    naive_compare cOp Unsigned (setp ! r) v)))"
proof -
  have arith: "(sint (b - 0x80) < sint (a - 0x80) \<longleftrightarrow> uint b < uint a)
       \<and> - 128 \<le> sint (a - 0x80) \<and> sint (a - 0x80) \<le> 127
       \<and> a - 0x80 = a XOR 0x80
       \<and> mm256_cmpgt_epi8 (mm256_sub_epi8 x (mm256_set1_epi8 (- 128)))
            (mm256_sub_epi8 (mm256_set1_epi8 v) (mm256_set1_epi8 (- 128)))
          = map (\<lambda>d. if uint v < uint d then 0xFF else 0x00) (take 32 x)"
    by (rule bias_arithmetic)
  have blk: "\<exists>R. block_result GreaterThan Unsigned setp
                    (mm256_sub_epi8 (mm256_set1_epi8 v) (mm256_set1_epi8 (- 128))) i = Some R \<and>
                 (\<forall>j<64. bit R j \<longleftrightarrow> uint v < uint (setp ! (nat i + j)))"
    if "0 \<le> i \<and> nat i + 64 \<le> length setp"
    using block_result_bits [of i setp GreaterThan Unsigned v] that
    by (simp only: bov_Unsigned naive_GreaterThan_Unsigned)
  have scan: "\<exists>mv'. Where cOp Or Unsigned setp len v (replicate m 0) = Some mv' \<and>
                 (\<forall>r<nat len. bit (mv' ! (r div 64)) (r mod 64) \<longleftrightarrow>
                    naive_compare cOp Unsigned (setp ! r) v)"
    if h: "0 \<le> len \<and> nat len \<le> length setp \<and> nat ((len + 63) div 64) \<le> m"
  proof -
    define n where "n = nat len"
    have h0: "0 \<le> len" and h1: "nat len \<le> length setp"
      and h2: "nat ((len + 63) div 64) \<le> m"
      using h by (rule conjunct1, rule conjunct1 [OF conjunct2], rule conjunct2 [OF conjunct2])
    have len: "len = int n" using h0 by (simp add: n_def)
    have sz: "n \<le> length setp" "(n + 63) div 64 \<le> m"
      using h1 h2 by (simp_all only: n_def int_nat_ceil [OF h0])
    have n': "nat (int n) = n" by simp
    show ?thesis
      unfolding len n' using Where_rows_naive [OF sz, of cOp Unsigned v] by auto
  qed
  from arith blk scan show ?thesis by blast
qed

theorem unsigned_bias_preserves_order_witness:
  "(sint (0x7F - 0x80 :: u8) < sint (0x80 - 0x80 :: u8) \<longleftrightarrow> uint (0x7F :: u8) < uint (0x80 :: u8))
   \<and> (0x80 :: u8) - 0x80 = 0x80 XOR 0x80
   \<and> mm256_cmpgt_epi8 (mm256_sub_epi8 [0x00, 0x7F, 0x80, 0xFF] (mm256_set1_epi8 (- 128)))
        (mm256_sub_epi8 (mm256_set1_epi8 0x7F) (mm256_set1_epi8 (- 128)))
      = [0x00, 0x00, 0xFF, 0xFF]
   \<and> (0::int) \<le> 0 \<and> nat 0 + 64 \<le> length (replicate 32 3 @ replicate 33 (200 :: u8))
   \<and> (\<exists>R. block_result GreaterThan Unsigned (replicate 32 3 @ replicate 33 200)
            (mm256_sub_epi8 (mm256_set1_epi8 0x7F) (mm256_set1_epi8 (- 128))) 0 = Some R \<and>
          (\<forall>j<64. bit R j \<longleftrightarrow>
             uint (0x7F :: u8) < uint ((replicate 32 3 @ replicate 33 (200 :: u8)) ! (nat 0 + j))))
   \<and> (0::int) \<le> 65 \<and> nat 65 \<le> length (replicate 32 3 @ replicate 33 (200 :: u8))
   \<and> nat ((65 + 63) div 64) \<le> (2::nat)
   \<and> (\<exists>mv'. Where LessThan Or Unsigned (replicate 32 3 @ replicate 33 200) 65 0x7F
              (replicate 2 0) = Some mv' \<and>
          (\<forall>r<nat 65. bit (mv' ! (r div 64)) (r mod 64) \<longleftrightarrow>
             naive_compare LessThan Unsigned ((replicate 32 3 @ replicate 33 200) ! r) 0x7F))"
  using unsigned_bias_preserves_order [where a = "0x7F" and b = "0x80"
      and x = "[0x00, 0x7F, 0x80, 0xFF]" and v = "0x7F" and i = 0
      and setp = "replicate 32 3 @ replicate 33 200" and len = 65 and m = 2 and cOp = LessThan]
  by simp

section \<open>The exported wrappers\<close>

text \<open>
  Claim C10. \<open>WhereGreaterThan\<close>, \<open>WhereLessThan\<close> and \<open>WhereEquals\<close> ignore their
  \<open>positive\<close> and \<open>and\<close> parameters: two calls that differ only in these flags give the
  same match vector, since each wrapper is the unsigned, And-combined instance of \<open>Where\<close>
  for its operator.
\<close>

theorem wrappers_ignore_flags:
  "WhereGreaterThan positive and_flag setp len v mv = WhereGreaterThan positive' and_flag' setp len v mv
   \<and> WhereLessThan positive and_flag setp len v mv = WhereLessThan positive' and_flag' setp len v mv
   \<and> WhereEquals positive and_flag setp len v mv = WhereEquals positive' and_flag' setp len v mv
   \<and> WhereGreaterThan positive and_flag setp len v mv = Where GreaterThan And Unsigned setp len v mv
   \<and> WhereLessThan positive and_flag setp len v mv = Where LessThan And Unsigned setp len v mv
   \<and> WhereEquals positive and_flag setp len v mv = Where Equals And Unsigned setp len v mv"
  by (simp add: WhereGreaterThan_def WhereLessThan_def WhereEquals_def)

section \<open>Combinator laws\<close>

text \<open>
  Claim C3. Let \<open>B\<close> be the value of a match-vector word before the scan and \<open>R\<close> the
  64-row result word the scan computes for it. With combinator \<open>And\<close> the scan stores
  \<open>B AND R\<close>, with \<open>Or\<close> it stores \<open>B OR R\<close>, with \<open>AndNot\<close> it stores
  \<open>B AND NOT R\<close>; this holds for the word of every full 64-row chunk and for the tail
  word. (The buffers are as large as the row count requires, so that the scan is defined.)
\<close>

theorem Where_combinator_laws:
  assumes "0 \<le> len" and "nat len \<le> length setp" and "nat ((len + 63) div 64) \<le> length mv"
  shows "\<exists>mv'. Where cOp bOp sign setp len v mv = Some mv' \<and>
           (\<forall>k<nat (len div 64). \<exists>R. chunk_result cOp sign setp v k = Some R \<and>
              (bOp = And \<longrightarrow> mv' ! k = mv ! k AND R) \<and>
              (bOp = Or \<longrightarrow> mv' ! k = mv ! k OR R) \<and>
              (bOp = AndNot \<longrightarrow> mv' ! k = mv ! k AND NOT R)) \<and>
           (0 < len mod 64 \<longrightarrow> (\<exists>R. tail_result cOp setp len v = Some R \<and>
              (bOp = And \<longrightarrow> mv' ! nat (len div 64) = mv ! nat (len div 64) AND R) \<and>
              (bOp = Or \<longrightarrow> mv' ! nat (len div 64) = mv ! nat (len div 64) OR R) \<and>
              (bOp = AndNot \<longrightarrow> mv' ! nat (len div 64) = mv ! nat (len div 64) AND NOT R)))"
proof -
  define n where "n = nat len"
  have len: "len = int n" using assms(1) by (simp add: n_def)
  have sz: "n \<le> length setp" "(n + 63) div 64 \<le> length mv"
    using assms by (simp_all add: n_def int_nat_ceil)
  obtain mv' where mv': "Where cOp bOp sign setp (int n) v mv = Some mv'" "length mv' = length mv"
    "\<And>k. k < length mv \<Longrightarrow> mv' ! k =
              (if k < n div 64 then combine bOp (mv ! k) (the (chunk_result cOp sign setp v k))
               else if k = n div 64 \<and> 0 < n mod 64
                    then combine bOp (mv ! k) (the (tail_result cOp setp (int n) v))
                    else mv ! k)"
    using Where_spec [OF sz, of cOp bOp sign v] by blast
  have le: "n div 64 \<le> length mv" using sz(2) by (meson div_le_mono le_add1 le_trans)
  have chunks: "\<exists>R. chunk_result cOp sign setp v k = Some R \<and>
              (bOp = And \<longrightarrow> mv' ! k = mv ! k AND R) \<and>
              (bOp = Or \<longrightarrow> mv' ! k = mv ! k OR R) \<and>
              (bOp = AndNot \<longrightarrow> mv' ! k = mv ! k AND NOT R)" if k: "k < n div 64" for k
  proof -
    obtain R where R: "chunk_result cOp sign setp v k = Some R"
      using chunk_result_bits [OF chunk_in_range [OF k sz(1)], of cOp sign v] by blast
    have "k < length mv" using k le by simp
    then have "mv' ! k = combine bOp (mv ! k) R" using mv'(3) [of k] k R by simp
    then show ?thesis using R combine_cases [of bOp "mv ! k" R] by simp
  qed
  have tail: "\<exists>R. tail_result cOp setp (int n) v = Some R \<and>
              (bOp = And \<longrightarrow> mv' ! (n div 64) = mv ! (n div 64) AND R) \<and>
              (bOp = Or \<longrightarrow> mv' ! (n div 64) = mv ! (n div 64) OR R) \<and>
              (bOp = AndNot \<longrightarrow> mv' ! (n div 64) = mv ! (n div 64) AND NOT R)" if t: "0 < n mod 64"
  proof -
    obtain R where R: "tail_result cOp setp (int n) v = Some R"
      using tail_result_spec [OF sz(1), of cOp v] by blast
    have "n div 64 < length mv" using Where_tail_word_index [OF t] sz(2) by simp
    then have "mv' ! (n div 64) = combine bOp (mv ! (n div 64)) R"
      using mv'(3) [of "n div 64"] t R by simp
    then show ?thesis using R combine_cases [of bOp "mv ! (n div 64)" R] by simp
  qed
  have d: "nat (int n div 64) = n div 64" by (simp add: int_nat_div)
  have m: "(0 < int n mod 64) = (0 < n mod 64)" by (simp add: int_nat_mod)
  show ?thesis
    unfolding len d m
  proof (intro exI [of _ mv'] conjI allI impI)
    show "Where cOp bOp sign setp (int n) v mv = Some mv'" by (rule mv'(1))
  next
    fix k assume "k < n div 64"
    then show "\<exists>R. chunk_result cOp sign setp v k = Some R \<and>
              (bOp = And \<longrightarrow> mv' ! k = mv ! k AND R) \<and>
              (bOp = Or \<longrightarrow> mv' ! k = mv ! k OR R) \<and>
              (bOp = AndNot \<longrightarrow> mv' ! k = mv ! k AND NOT R)" by (rule chunks)
  next
    assume "0 < n mod 64"
    then show "\<exists>R. tail_result cOp setp (int n) v = Some R \<and>
              (bOp = And \<longrightarrow> mv' ! (n div 64) = mv ! (n div 64) AND R) \<and>
              (bOp = Or \<longrightarrow> mv' ! (n div 64) = mv ! (n div 64) OR R) \<and>
              (bOp = AndNot \<longrightarrow> mv' ! (n div 64) = mv ! (n div 64) AND NOT R)" by (rule tail)
  qed
qed

theorem Where_combinator_laws_witness:
  "(0::int) \<le> 65 \<and> nat 65 \<le> length (replicate 64 7 @ [9 :: u8]) \<and>
   nat ((65 + 63) div 64) \<le> length [- 1, - 1 :: u64] \<and>
   (\<exists>mv'. Where GreaterThan AndNot Unsigned (replicate 64 7 @ [9]) 65 8 [- 1, - 1] = Some mv' \<and>
      (\<forall>k<nat (65 div 64). \<exists>R. chunk_result GreaterThan Unsigned (replicate 64 7 @ [9]) 8 k = Some R \<and>
         mv' ! k = [- 1, - 1] ! k AND NOT R) \<and>
      (\<exists>R. tail_result GreaterThan (replicate 64 7 @ [9]) 65 8 = Some R \<and>
         mv' ! nat (65 div 64) = [- 1, - 1] ! nat (65 div 64) AND NOT R))"
  using Where_combinator_laws [where len = 65 and setp = "replicate 64 7 @ [9]" and mv = "[- 1, - 1]"
      and cOp = GreaterThan and bOp = AndNot and sign = Unsigned and v = 8]
  by simp

section \<open>Frame of the scan\<close>

text \<open>
  Claim C8. A scan of \<open>N \<ge> 0\<close> rows writes only match-vector words of index below
  \<open>ceil (N / 64)\<close>: every word at an index from \<open>ceil (N / 64)\<close> on has the same value
  after the call as before, and when \<open>N\<close> is a multiple of 64 this includes the word at
  index \<open>N / 64\<close>, so no tail word is produced.
\<close>

theorem Where_frame:
  assumes "0 \<le> len" and "nat len \<le> length setp" and "nat ((len + 63) div 64) \<le> length mv"
  shows "\<exists>mv'. Where cOp bOp sign setp len v mv = Some mv' \<and> length mv' = length mv \<and>
           (\<forall>k. nat ((len + 63) div 64) \<le> k \<and> k < length mv \<longrightarrow> mv' ! k = mv ! k) \<and>
           (len mod 64 = 0 \<longrightarrow> (\<forall>k. nat (len div 64) \<le> k \<and> k < length mv \<longrightarrow> mv' ! k = mv ! k))"
proof -
  define n where "n = nat len"
  have len: "len = int n" using assms(1) by (simp add: n_def)
  have sz: "n \<le> length setp" "(n + 63) div 64 \<le> length mv"
    using assms by (simp_all add: n_def int_nat_ceil)
  obtain mv' where mv': "Where cOp bOp sign setp (int n) v mv = Some mv'" "length mv' = length mv"
    "\<And>k. k < length mv \<Longrightarrow> mv' ! k =
              (if k < n div 64 then combine bOp (mv ! k) (the (chunk_result cOp sign setp v k))
               else if k = n div 64 \<and> 0 < n mod 64
                    then combine bOp (mv ! k) (the (tail_result cOp setp (int n) v))
                    else mv ! k)"
    using Where_spec [OF sz, of cOp bOp sign v] by blast
  have ceil: "n div 64 \<le> (n + 63) div 64" by (rule div_le_mono) simp
  have a: "mv' ! k = mv ! k" if "(n + 63) div 64 \<le> k" "k < length mv" for k
  proof -
    have "\<not> k < n div 64" using that(1) ceil by simp
    moreover have "\<not> (k = n div 64 \<and> 0 < n mod 64)"
    proof
      assume "k = n div 64 \<and> 0 < n mod 64"
      then have "k = n div 64" "n div 64 < (n + 63) div 64"
        using Where_tail_word_index [of n] by simp_all
      then show False using that(1) by simp
    qed
    ultimately show ?thesis using mv'(3) [OF that(2)] by auto
  qed
  have b: "mv' ! k = mv ! k" if "n mod 64 = 0" "n div 64 \<le> k" "k < length mv" for k
    using that mv'(3) [OF that(3)] by simp
  have d: "nat (int n div 64) = n div 64" by (simp add: int_nat_div)
  have c: "nat ((int n + 63) div 64) = (n + 63) div 64" using int_nat_ceil [of "int n"] by simp
  have m: "(int n mod 64 = 0) = (n mod 64 = 0)"
  proof -
    have "int n mod 64 = int (n mod 64)" by (simp add: zmod_int)
    then show ?thesis by (simp only: of_nat_eq_0_iff)
  qed
  show ?thesis
    unfolding len d m c
  proof (intro exI [of _ mv'] conjI allI impI)
    show "Where cOp bOp sign setp (int n) v mv = Some mv'" by (rule mv'(1))
    show "length mv' = length mv" by (rule mv'(2))
  next
    fix k assume "(n + 63) div 64 \<le> k \<and> k < length mv"
    then show "mv' ! k = mv ! k" using a [of k] by simp
  next
    fix k assume "n mod 64 = 0" "n div 64 \<le> k \<and> k < length mv"
    then show "mv' ! k = mv ! k" using b [of k] by simp
  qed
qed

theorem Where_frame_witness:
  "(0::int) \<le> 64 \<and> nat 64 \<le> length (replicate 64 (7 :: u8)) \<and>
   nat ((64 + 63) div 64) \<le> length [5, 6, 7 :: u64] \<and>
   (\<exists>mv'. Where LessThan Or Signed (replicate 64 7) 64 8 [5, 6, 7] = Some mv' \<and>
      length mv' = length [5, 6, 7 :: u64] \<and>
      (\<forall>k. nat ((64 + 63) div 64) \<le> k \<and> k < length [5, 6, 7 :: u64] \<longrightarrow> mv' ! k = [5, 6, 7] ! k) \<and>
      ((64::int) mod 64 = 0 \<longrightarrow>
         (\<forall>k. nat (64 div 64) \<le> k \<and> k < length [5, 6, 7 :: u64] \<longrightarrow> mv' ! k = [5, 6, 7] ! k)))"
  using Where_frame [where len = 64 and setp = "replicate 64 7" and mv = "[5, 6, 7]"
      and cOp = LessThan and bOp = Or and sign = Signed and v = 8]
  by simp

section \<open>\<open>AndWhereGreaterThanInternal\<close> is an instance of \<open>Where\<close>\<close>

text \<open>
  Claim C9. For every column buffer, every row count \<open>N \<ge> 0\<close> and every scalar,
  \<open>AndWhereGreaterThanInternal\<close> has the same effect on the match vector as the instance
  \<open>Where<GreaterThan, And, Unsigned>\<close> of the generic scan, out-of-bounds accesses
  included.
\<close>

theorem AndWhereGreaterThanInternal_eq_Where:
  assumes "0 \<le> len"
  shows "AndWhereGreaterThanInternal setp len v mv = Where GreaterThan And Unsigned setp len v mv"
  using assms by (rule Internal_eq_Where)

theorem AndWhereGreaterThanInternal_eq_Where_witness:
  "(0::int) \<le> 3 \<and>
   AndWhereGreaterThanInternal [9, 1, 200] 3 8 [- 1] = Where GreaterThan And Unsigned [9, 1, 200] 3 8 [- 1]"
  using AndWhereGreaterThanInternal_eq_Where [of 3 "[9, 1, 200]" 8 "[- 1]"]
  by simp

section \<open>Inverted scans\<close>

text \<open>
  Claim C7, as amended. For the same column buffer, row count \<open>N \<ge> 0\<close>, scalar and
  signedness mode, scanning with \<open>GreaterThan\<close> Or-combined into an all-zero match vector
  and inverting the words gives, at the bit of every real row \<open>i < N\<close>, the bit that the
  \<open>LessThanOrEqual\<close> scan Or-combined into an all-zero match vector gives; likewise for
  \<open>LessThan\<close> and \<open>GreaterThanOrEqual\<close>, and for \<open>Equals\<close> and \<open>NotEquals\<close>. At every
  bit position from \<open>N\<close> on (the rest of the tail word and the words the scan does not
  touch) each of the six scans leaves the bit clear, so that there the inverted match vector
  has the bit set and the other one has it clear. When \<open>N\<close> is a multiple of 64 and the
  match vector has exactly \<open>N / 64\<close> words, the inverted match vector equals the other one.
\<close>

theorem inverted_scan_agrees_on_rows:
  assumes "0 \<le> len" and "nat len \<le> length setp" and "nat ((len + 63) div 64) \<le> m"
  shows "\<exists>gt le lt ge eq ne.
           Where GreaterThan Or sign setp len v (replicate m 0) = Some gt \<and>
           Where LessThanOrEqual Or sign setp len v (replicate m 0) = Some le \<and>
           Where LessThan Or sign setp len v (replicate m 0) = Some lt \<and>
           Where GreaterThanOrEqual Or sign setp len v (replicate m 0) = Some ge \<and>
           Where Equals Or sign setp len v (replicate m 0) = Some eq \<and>
           Where NotEquals Or sign setp len v (replicate m 0) = Some ne \<and>
           (\<forall>i<nat len.
              (bit (NOT (gt ! (i div 64))) (i mod 64) \<longleftrightarrow> bit (le ! (i div 64)) (i mod 64)) \<and>
              (bit (NOT (lt ! (i div 64))) (i mod 64) \<longleftrightarrow> bit (ge ! (i div 64)) (i mod 64)) \<and>
              (bit (NOT (eq ! (i div 64))) (i mod 64) \<longleftrightarrow> bit (ne ! (i div 64)) (i mod 64))) \<and>
           (\<forall>k<m. \<forall>j<64. nat len \<le> 64 * k + j \<longrightarrow>
              bit (NOT (gt ! k)) j \<and> \<not> bit (le ! k) j \<and>
              bit (NOT (lt ! k)) j \<and> \<not> bit (ge ! k) j \<and>
              bit (NOT (eq ! k)) j \<and> \<not> bit (ne ! k) j) \<and>
           (len = 64 * int m \<longrightarrow> map NOT gt = le \<and> map NOT lt = ge \<and> map NOT eq = ne)"
proof -
  define n where "n = nat len"
  have len: "len = int n" using assms(1) by (simp add: n_def)
  have sz: "n \<le> length setp" "(n + 63) div 64 \<le> m"
    using assms by (simp_all add: n_def int_nat_ceil)
  obtain gt le where a: "Where GreaterThan Or sign setp (int n) v (replicate m 0) = Some gt"
      "Where LessThanOrEqual Or sign setp (int n) v (replicate m 0) = Some le"
      "length gt = m" "length le = m"
      "\<And>i. i < n \<Longrightarrow> bit (NOT (gt ! (i div 64))) (i mod 64) \<longleftrightarrow> bit (le ! (i div 64)) (i mod 64)"
    using complement_rows [OF sz, of LessThanOrEqual v GreaterThan sign]
    by (auto simp add: tail_match_complement naive_compare_complement)
  obtain lt ge where b: "Where LessThan Or sign setp (int n) v (replicate m 0) = Some lt"
      "Where GreaterThanOrEqual Or sign setp (int n) v (replicate m 0) = Some ge"
      "length lt = m" "length ge = m"
      "\<And>i. i < n \<Longrightarrow> bit (NOT (lt ! (i div 64))) (i mod 64) \<longleftrightarrow> bit (ge ! (i div 64)) (i mod 64)"
    using complement_rows [OF sz, of GreaterThanOrEqual v LessThan sign]
    by (auto simp add: tail_match_complement naive_compare_complement)
  obtain eq ne where c: "Where Equals Or sign setp (int n) v (replicate m 0) = Some eq"
      "Where NotEquals Or sign setp (int n) v (replicate m 0) = Some ne"
      "length eq = m" "length ne = m"
      "\<And>i. i < n \<Longrightarrow> bit (NOT (eq ! (i div 64))) (i mod 64) \<longleftrightarrow> bit (ne ! (i div 64)) (i mod 64)"
    using complement_rows [OF sz, of NotEquals v Equals sign]
    by (auto simp add: tail_match_complement naive_compare_complement)
  have whole: "map NOT gt = le \<and> map NOT lt = ge \<and> map NOT eq = ne" if "len = 64 * int m"
  proof -
    have nm: "n = 64 * m" using that by (simp add: n_def)
    show ?thesis
      using complement_whole [OF a(3,4)] complement_whole [OF b(3,4)] complement_whole [OF c(3,4)]
        a(5) b(5) c(5) unfolding nm by simp
  qed
  have rows: "\<forall>i<n.
              (bit (NOT (gt ! (i div 64))) (i mod 64) \<longleftrightarrow> bit (le ! (i div 64)) (i mod 64)) \<and>
              (bit (NOT (lt ! (i div 64))) (i mod 64) \<longleftrightarrow> bit (ge ! (i div 64)) (i mod 64)) \<and>
              (bit (NOT (eq ! (i div 64))) (i mod 64) \<longleftrightarrow> bit (ne ! (i div 64)) (i mod 64))"
    using a(5) b(5) c(5) by simp
  have above: "\<forall>k<m. \<forall>j<64. n \<le> 64 * k + j \<longrightarrow>
              bit (NOT (gt ! k)) j \<and> \<not> bit (le ! k) j \<and>
              bit (NOT (lt ! k)) j \<and> \<not> bit (ge ! k) j \<and>
              bit (NOT (eq ! k)) j \<and> \<not> bit (ne ! k) j"
    using Where_Or_above_of [OF a(1) sz] Where_Or_above_of [OF a(2) sz]
      Where_Or_above_of [OF b(1) sz] Where_Or_above_of [OF b(2) sz]
      Where_Or_above_of [OF c(1) sz] Where_Or_above_of [OF c(2) sz]
    by (simp add: bit_not_iff)
  have w: "int n = 64 * int m \<longrightarrow> map NOT gt = le \<and> map NOT lt = ge \<and> map NOT eq = ne"
    using whole unfolding len by simp
  have n': "nat (int n) = n" by simp
  show ?thesis
    unfolding len n'
    apply (rule exI [of _ gt], rule exI [of _ le], rule exI [of _ lt], rule exI [of _ ge],
        rule exI [of _ eq], rule exI [of _ ne])
    apply (intro conjI)
           apply (rule a(1) a(2) b(1) b(2) c(1) c(2) rows above w)+
    done
qed

theorem inverted_scan_agrees_on_rows_witness:
  "((0::int) \<le> 65 \<and> nat 65 \<le> length (replicate 64 3 @ [200] :: u8 list) \<and>
   nat ((65 + 63) div 64) \<le> (2::nat) \<and>
   (\<exists>gt le lt ge eq ne.
           Where GreaterThan Or Signed (replicate 64 3 @ [200]) 65 100 (replicate 2 0) = Some gt \<and>
           Where LessThanOrEqual Or Signed (replicate 64 3 @ [200]) 65 100 (replicate 2 0) = Some le \<and>
           Where LessThan Or Signed (replicate 64 3 @ [200]) 65 100 (replicate 2 0) = Some lt \<and>
           Where GreaterThanOrEqual Or Signed (replicate 64 3 @ [200]) 65 100 (replicate 2 0) = Some ge \<and>
           Where Equals Or Signed (replicate 64 3 @ [200]) 65 100 (replicate 2 0) = Some eq \<and>
           Where NotEquals Or Signed (replicate 64 3 @ [200]) 65 100 (replicate 2 0) = Some ne \<and>
           (\<forall>i<nat 65.
              (bit (NOT (gt ! (i div 64))) (i mod 64) \<longleftrightarrow> bit (le ! (i div 64)) (i mod 64)) \<and>
              (bit (NOT (lt ! (i div 64))) (i mod 64) \<longleftrightarrow> bit (ge ! (i div 64)) (i mod 64)) \<and>
              (bit (NOT (eq ! (i div 64))) (i mod 64) \<longleftrightarrow> bit (ne ! (i div 64)) (i mod 64))) \<and>
           (\<forall>k<2. \<forall>j<64. nat 65 \<le> 64 * k + j \<longrightarrow>
              bit (NOT (gt ! k)) j \<and> \<not> bit (le ! k) j \<and>
              bit (NOT (lt ! k)) j \<and> \<not> bit (ge ! k) j \<and>
              bit (NOT (eq ! k)) j \<and> \<not> bit (ne ! k) j) \<and>
           ((65::int) = 64 * int 2 \<longrightarrow> map NOT gt = le \<and> map NOT lt = ge \<and> map NOT eq = ne)))
   \<and>
   ((0::int) \<le> 64 \<and> nat 64 \<le> length (replicate 32 3 @ replicate 32 200 :: u8 list) \<and>
   nat ((64 + 63) div 64) \<le> (1::nat) \<and>
   (\<exists>gt le lt ge eq ne.
           Where GreaterThan Or Unsigned (replicate 32 3 @ replicate 32 200) 64 100 (replicate 1 0) = Some gt \<and>
           Where LessThanOrEqual Or Unsigned (replicate 32 3 @ replicate 32 200) 64 100 (replicate 1 0) = Some le \<and>
           Where LessThan Or Unsigned (replicate 32 3 @ replicate 32 200) 64 100 (replicate 1 0) = Some lt \<and>
           Where GreaterThanOrEqual Or Unsigned (replicate 32 3 @ replicate 32 200) 64 100 (replicate 1 0) = Some ge \<and>
           Where Equals Or Unsigned (replicate 32 3 @ replicate 32 200) 64 100 (replicate 1 0) = Some eq \<and>
           Where NotEquals Or Unsigned (replicate 32 3 @ replicate 32 200) 64 100 (replicate 1 0) = Some ne \<and>
           (\<forall>i<nat 64.
              (bit (NOT (gt ! (i div 64))) (i mod 64) \<longleftrightarrow> bit (le ! (i div 64)) (i mod 64)) \<and>
              (bit (NOT (lt ! (i div 64))) (i mod 64) \<longleftrightarrow> bit (ge ! (i div 64)) (i mod 64)) \<and>
              (bit (NOT (eq ! (i div 64))) (i mod 64) \<longleftrightarrow> bit (ne ! (i div 64)) (i mod 64))) \<and>
           (\<forall>k<1. \<forall>j<64. nat 64 \<le> 64 * k + j \<longrightarrow>
              bit (NOT (gt ! k)) j \<and> \<not> bit (le ! k) j \<and>
              bit (NOT (lt ! k)) j \<and> \<not> bit (ge ! k) j \<and>
              bit (NOT (eq ! k)) j \<and> \<not> bit (ne ! k) j) \<and>
           ((64::int) = 64 * int 1 \<longrightarrow> map NOT gt = le \<and> map NOT lt = ge \<and> map NOT eq = ne)))"
  using inverted_scan_agrees_on_rows [where len = 65 and setp = "replicate 64 3 @ [200]"
      and m = 2 and sign = Signed and v = 100]
    inverted_scan_agrees_on_rows [where len = 64 and setp = "replicate 32 3 @ replicate 32 200"
      and m = 1 and sign = Unsigned and v = 100]
  by simp

text \<open>
  Claim C7 as stated fails: with one row, the tail word of the \<open>GreaterThan\<close> scan has only
  bit 0 set, so its inversion has the 63 bits above the row count set, and the
  \<open>LessThanOrEqual\<close> scan leaves them clear.
\<close>

theorem inverted_scan_counterexample:
  "map_option (map NOT) (Where GreaterThan Or Unsigned [5] 1 3 [0]) \<noteq>
   Where LessThanOrEqual Or Unsigned [5] 1 3 [0]"
  by code_simp

section \<open>The tail loop in the signed mode\<close>

text \<open>
  Claim C1 says that, on a buffer of at least 64 rows, the bit of every row is the naive
  comparison under the chosen signedness. The scan of 65 rows in the signed mode with
  \<open>GreaterThan\<close>, scalar 0 and byte \<open>0x80\<close> (that is \<open>-128\<close>) in row 64 sets the bit of row
  64, though \<open>-128 > 0\<close> is false: the tail loop compares the bytes as unsigned whatever the
  signedness mode.
\<close>

theorem Where_signed_tail_row_not_naive:
  "Where GreaterThan Or Signed (replicate 64 0 @ [0x80]) 65 0 [0, 0] = Some [0, 1]
   \<and> bit ([0, 1 :: u64] ! (64 div 64)) (64 mod 64)
   \<and> \<not> naive_compare GreaterThan Signed ((replicate 64 0 @ [0x80]) ! 64) 0"
  by code_simp

text \<open>
  Claim C2 says that the tail rows are matched as the naive comparison under the chosen
  signedness matches them, as if the buffer were rounded up to a full chunk. In the signed
  mode the one-row scan of byte \<open>0x80\<close> against scalar 0 with \<open>GreaterThan\<close> sets bit 0,
  though \<open>-128 > 0\<close> is false, and the same row in a buffer padded to 64 rows is not
  matched.
\<close>

theorem Where_signed_tail_differs_from_rounded_up:
  "Where GreaterThan Or Signed [0x80] 1 0 [0] = Some [1]
   \<and> \<not> naive_compare GreaterThan Signed 0x80 0
   \<and> Where GreaterThan Or Signed (0x80 # replicate 63 0) 64 0 [0] = Some [0]"
  by code_simp

section \<open>Counting\<close>

text \<open>
  Claim C5, as amended. For every word array and every word count \<open>n\<close> with
  \<open>0 \<le> n\<close> that the array holds, \<open>Count\<close> leaves the array as it is and returns the sum,
  over the first \<open>n\<close> words, of the number of set bits of each word, reduced to a signed
  32-bit integer: the sum itself whenever it is below \<open>2^31\<close>, which is the case for every
  word count below \<open>2^25\<close>.
\<close>

theorem CountInternal_sum:
  assumes "0 \<le> len" and "nat len \<le> length mv"
  shows "CountInternal mv len =
           Some (signed_take_bit 31 (int (sum_list (map set_bit_count (take (nat len) mv)))), mv)
       \<and> (sum_list (map set_bit_count (take (nat len) mv)) < 2 ^ 31 \<longrightarrow>
            CountInternal mv len = Some (int (sum_list (map set_bit_count (take (nat len) mv))), mv))
       \<and> (len < 2 ^ 25 \<longrightarrow> sum_list (map set_bit_count (take (nat len) mv)) < 2 ^ 31)"
proof -
  define n where "n = nat len"
  define s where "s = sum_list (map set_bit_count (take n mv))"
  have len: "len = int n" using assms(1) by (simp add: n_def)
  have "n \<le> length mv" using assms(2) by (simp only: n_def)
  then have v: "CountInternal mv len = Some (signed_take_bit 31 (int s), mv)"
    unfolding len s_def by (rule CountInternal_value)
  have small: "signed_take_bit 31 (int s) = int s" if "s < 2 ^ 31"
    by (rule signed_take_bit_int_eq_self) (use that in simp_all)
  have bound: "s < 2 ^ 31" if "len < 2 ^ 25"
  proof -
    have "s \<le> 64 * length (take n mv)" unfolding s_def by (rule sum_set_bit_count_le)
    also have "\<dots> = 64 * n" using assms(2) by (simp add: n_def)
    also have "\<dots> < 2 ^ 31" using that by (simp add: n_def)
    finally show ?thesis .
  qed
  show ?thesis
    unfolding n_def [symmetric] s_def [symmetric] using v small bound by simp
qed

theorem CountInternal_sum_witness:
  "(0::int) \<le> 2 \<and> nat 2 \<le> length [255, 3, 1 :: u64] \<and>
   CountInternal [255, 3, 1] 2 = Some (10, [255, 3, 1])"
proof -
  have h0: "(0::int) \<le> 2" and h1: "nat 2 \<le> length [255, 3, 1 :: u64]" by simp_all
  have s: "sum_list (map set_bit_count (take (nat 2) [255, 3, 1])) = 10" by code_simp
  have "(10::nat) < 2 ^ 31 \<longrightarrow> CountInternal [255, 3, 1] 2 = Some (int 10, [255, 3, 1])"
    using CountInternal_sum [of 2 "[255, 3, 1]", OF h0 h1] unfolding s by (rule conjunct1 [OF conjunct2])
  then show ?thesis using h0 h1 by simp
qed

text \<open>
  Claim C5 as stated fails: on \<open>2^25\<close> words with all bits set the sum is \<open>2^31\<close>, and the
  cast of the 64-bit counter to \<open>int\<close> returns \<open>-2^31\<close>.
\<close>

theorem CountInternal_wraps_counterexample:
  "CountInternal (replicate 33554432 (- 1)) 33554432 \<noteq>
   Some (int (sum_list (map set_bit_count (take 33554432 (replicate 33554432 (- 1))))),
         replicate 33554432 (- 1))"
proof -
  have "set_bit_count (- 1) = 64" by code_simp
  then have s: "sum_list (map set_bit_count (take 33554432 (replicate 33554432 (- 1)))) = 2147483648"
    by (simp add: sum_list_replicate)
  have t: "signed_take_bit 31 (2147483648 :: int) = - 2147483648"
    by (simp add: signed_take_bit_eq_take_bit_shift take_bit_eq_mod)
  have "CountInternal (replicate 33554432 (- 1)) (int 33554432) =
          Some (signed_take_bit 31 (int (sum_list (map set_bit_count
             (take 33554432 (replicate 33554432 (- 1)))))), replicate 33554432 (- 1))"
    by (rule CountInternal_value) simp
  then have "CountInternal (replicate 33554432 (- 1)) 33554432 =
          Some (- 2147483648, replicate 33554432 (- 1))"
    unfolding s by (simp add: t)
  then show ?thesis unfolding s by simp
qed

section \<open>The managed entry point on an empty column\<close>

text \<open>
  Claim C4 says that \<open>IndexSetN::AndWhereGreaterThan\<close> returns with the match vector
  unchanged when the match vector cannot hold one bit per row, and performs the scan
  otherwise. On an empty column and a match vector of one word the guard does not fire, and
  the scan of zero rows (\<open>AndWhereGreaterThanInternal\<close>) would return the match vector as it
  is; the entry point raises \<open>IndexOutOfRangeException\<close> instead, when it takes the address
  of element 0 of the empty array.
\<close>

theorem AndWhereGreaterThan_empty_set_raises:
  "AndWhereGreaterThan [] 0 [0xFF] = Inl IndexOutOfRangeException
   \<and> AndWhereGreaterThanInternal [] 0 0 [0xFF] = Some [0xFF]"
  by code_simp

end
